theory Spec2Isabelle
  imports Main "HOL-Library.Word"
begin

unbundle bit_operations_syntax

text \<open>
  A model of \<^verbatim>\<open>simple8b.cpp\<close>: the Simple8b encoder and decoder
  (\<^verbatim>\<open>Simple8bEncode\<close>, \<^verbatim>\<open>Simple8bDecode\<close> and the helpers they call) and the delta
  and zig-zag transforms, as functions on lists of 64-bit words, with the properties of
  them that are proved here.
\<close>

section \<open>Machine integers and buffers\<close>

text \<open>
  The exported entry points of \<^verbatim>\<open>simple8b.h\<close> instantiate every template at 64 bits:
  \<^verbatim>\<open>uint64_t\<close> for the Simple8b coder, \<^verbatim>\<open>int64_t\<close> for the delta and zig-zag
  transforms. Both are 64-bit words here; a signed buffer element is the word holding its
  two's-complement bit pattern (\<open>sint\<close> reads it back). A buffer is the list of its
  elements, and an access outside the list is the result \<open>None\<close>.
\<close>

type_synonym u64 = "64 word"
type_synonym i64 = "64 word"

lemma unat_pred: "(i::u64) \<noteq> 0 \<Longrightarrow> unat (i - 1) = unat i - 1"
  by (simp add: unat_minus_one)

lemma unat_pred_less: "(i::u64) \<noteq> 0 \<Longrightarrow> unat (i - 1) < unat i"
  using unat_gt_0 [of i] by (simp add: unat_minus_one)

lemma unat_succ_less: "(i::u64) < len \<Longrightarrow> unat (i + 1) = Suc (unat i)"
proof -
  assume "i < len"
  then have "unat i < unat len" by (simp add: word_less_nat_alt)
  moreover have "unat len < 2 ^ 64" using unsigned_less [of len, where 'a=nat] by simp
  ultimately have "unat i + unat (1::u64) < 2 ^ LENGTH(64)" by simp
  then have "unat (i + 1) = unat i + unat (1::u64)" by (simp only: unat_add_lem)
  then show ?thesis by simp
qed

section \<open>Delta coding\<close>

text \<open>
  \<^verbatim>\<open>for (uint64_t i = length - 1; i > 0; i--) input[i] = input[i] - input[i - 1];\<close>
  The counter is a 64-bit word, so \<open>length - 1\<close> wraps when \<open>length\<close> is 0.
\<close>

function DeltaEncode_loop :: "i64 list \<Rightarrow> u64 \<Rightarrow> i64 list option" where
  "DeltaEncode_loop input i =
     (if i > 0 then
        (if unat i < length input \<and> unat (i - 1) < length input
         then DeltaEncode_loop (input[unat i := input ! unat i - input ! unat (i - 1)]) (i - 1)
         else None)
      else Some input)"
  by pat_completeness auto
termination
  by (relation "measure (\<lambda>(input, i). unat i)") (simp_all add: unat_pred_less word_gt_0)

declare DeltaEncode_loop.simps [simp del]

definition DeltaEncode :: "i64 list \<Rightarrow> u64 \<Rightarrow> i64 list option" where
  "DeltaEncode input len = DeltaEncode_loop input (len - 1)"

text \<open>
  \<^verbatim>\<open>for (uint64_t i = 1; i < length; i++) input[i] = input[i] + input[i - 1];\<close>
\<close>

function DeltaDecode_loop :: "i64 list \<Rightarrow> u64 \<Rightarrow> u64 \<Rightarrow> i64 list option" where
  "DeltaDecode_loop input len i =
     (if i < len then
        (if unat i < length input \<and> unat (i - 1) < length input
         then DeltaDecode_loop (input[unat i := input ! unat i + input ! unat (i - 1)]) len (i + 1)
         else None)
      else Some input)"
  by pat_completeness auto
termination
  by (relation "measure (\<lambda>(input, len, i). unat len - unat i)")
     (simp_all add: unat_succ_less word_less_nat_alt)

declare DeltaDecode_loop.simps [simp del]

definition DeltaDecode :: "i64 list \<Rightarrow> u64 \<Rightarrow> i64 list option" where
  "DeltaDecode input len = DeltaDecode_loop input len 1"

section \<open>Zig-zag coding\<close>

text \<open>
  \<^verbatim>\<open>T shift = (sizeof(T) * 8) - 1;\<close>
  \<^verbatim>\<open>for (uint64_t i = 0; i < length; i++) input[i] = (input[i] << 1LL) ^ (input[i] >> shift);\<close>
  With \<open>T = int64_t\<close> the right shift is an arithmetic one (\<open>signed_drop_bit\<close>).
\<close>

function ZigZagEncode_loop :: "i64 list \<Rightarrow> u64 \<Rightarrow> nat \<Rightarrow> u64 \<Rightarrow> i64 list option" where
  "ZigZagEncode_loop input len shift i =
     (if i < len then
        (if unat i < length input
         then ZigZagEncode_loop
                (input[unat i := push_bit 1 (input ! unat i) XOR signed_drop_bit shift (input ! unat i)])
                len shift (i + 1)
         else None)
      else Some input)"
  by pat_completeness auto
termination
  by (relation "measure (\<lambda>(input, len, shift, i). unat len - unat i)")
     (simp_all add: unat_succ_less word_less_nat_alt)

declare ZigZagEncode_loop.simps [simp del]

definition ZigZagEncode :: "i64 list \<Rightarrow> u64 \<Rightarrow> i64 list option" where
  "ZigZagEncode input len = ZigZagEncode_loop input len (8 * 8 - 1) 0"

text \<open>
  \<^verbatim>\<open>for (uint64_t i = 0; i < length; i++) input[i] = (input[i] >> 1LL) ^ -(input[i] & 1LL);\<close>
  The operand of \<^verbatim>\<open>>>\<close> is again an \<^verbatim>\<open>int64_t\<close>: the shift copies the sign bit.
\<close>

function ZigZagDecode_loop :: "i64 list \<Rightarrow> u64 \<Rightarrow> u64 \<Rightarrow> i64 list option" where
  "ZigZagDecode_loop input len i =
     (if i < len then
        (if unat i < length input
         then ZigZagDecode_loop
                (input[unat i := signed_drop_bit 1 (input ! unat i) XOR - (input ! unat i AND 1)])
                len (i + 1)
         else None)
      else Some input)"
  by pat_completeness auto
termination
  by (relation "measure (\<lambda>(input, len, i). unat len - unat i)")
     (simp_all add: unat_succ_less word_less_nat_alt)

declare ZigZagDecode_loop.simps [simp del]

definition ZigZagDecode :: "i64 list \<Rightarrow> u64 \<Rightarrow> i64 list option" where
  "ZigZagDecode input len = ZigZagDecode_loop input len 0"

section \<open>Delta coding: results\<close>

text \<open>
  \<open>deltas_between lo hi xs\<close> is \<open>xs\<close> with the element at every index from \<open>lo\<close> to
  \<open>hi\<close> replaced by its difference from its predecessor in \<open>xs\<close>: the contents of the
  buffer part-way through either loop.
\<close>

definition deltas_between :: "nat \<Rightarrow> nat \<Rightarrow> i64 list \<Rightarrow> i64 list" where
  "deltas_between lo hi xs =
     map (\<lambda>k. if lo \<le> k \<and> k \<le> hi then xs ! k - xs ! (k - 1) else xs ! k) [0..<length xs]"

lemma length_deltas_between [simp]: "length (deltas_between lo hi xs) = length xs"
  by (simp add: deltas_between_def)

lemma deltas_between_empty: "hi < lo \<Longrightarrow> deltas_between lo hi xs = xs"
  by (rule nth_equalityI) (auto simp: deltas_between_def)

lemma DeltaEncode_loop_deltas:
  "unat i < length xs \<Longrightarrow> DeltaEncode_loop xs i = Some (deltas_between 1 (unat i) xs)"
proof (induction xs i rule: DeltaEncode_loop.induct)
  case (1 input i)
  show ?case
  proof (cases "i = 0")
    case True
    then show ?thesis by (simp add: deltas_between_empty DeltaEncode_loop.simps)
  next
    case False
    let ?input' = "input[unat i := input ! unat i - input ! unat (i - 1)]"
    from False have pred: "unat (i - 1) = unat i - 1" and pos: "0 < unat i"
      by (simp_all add: unat_pred unat_gt_0)
    with "1.prems" have inb: "unat i < length input \<and> unat (i - 1) < length input" by simp
    have "DeltaEncode_loop input i = DeltaEncode_loop ?input' (i - 1)"
      using False inb by (subst DeltaEncode_loop.simps) (simp add: word_gt_0)
    also have "\<dots> = Some (deltas_between 1 (unat (i - 1)) ?input')"
      using False inb by (intro "1.IH") (simp_all add: word_gt_0)
    also have "deltas_between 1 (unat (i - 1)) ?input' = deltas_between 1 (unat i) input"
      using pos inb by (intro nth_equalityI) (auto simp: deltas_between_def pred nth_list_update)
    finally show ?thesis .
  qed
qed

lemma DeltaDecode_loop_deltas:
  "length xs - unat i = d \<Longrightarrow> 0 < unat i \<Longrightarrow> unat len = length xs
   \<Longrightarrow> DeltaDecode_loop (deltas_between (unat i) (length xs) xs) len i = Some xs"
proof (induction d arbitrary: i)
  case 0
  then have "\<not> i < len" by (simp add: word_less_nat_alt)
  moreover have "deltas_between (unat i) (length xs) xs = xs"
    using 0 by (intro nth_equalityI) (auto simp: deltas_between_def)
  ultimately show ?case by (subst DeltaDecode_loop.simps) simp
next
  case (Suc d)
  let ?ys = "deltas_between (unat i) (length xs) xs"
  from Suc.prems have lt: "i < len" by (simp add: word_less_nat_alt)
  then have succ: "unat (i + 1) = Suc (unat i)" by (rule unat_succ_less)
  from Suc.prems have pred: "unat (i - 1) = unat i - 1"
    by (intro unat_pred) (auto simp: unat_gt_0 [symmetric])
  from Suc.prems have inb: "unat i < length xs" by simp
  then have inb': "unat (i - 1) < length xs" by (simp add: pred)
  have upd: "?ys[unat i := ?ys ! unat i + ?ys ! unat (i - 1)]
               = deltas_between (unat (i + 1)) (length xs) xs"
    using Suc.prems(2) inb
    by (intro nth_equalityI) (auto simp: deltas_between_def pred succ nth_list_update)
  have "DeltaDecode_loop ?ys len i
          = DeltaDecode_loop (?ys[unat i := ?ys ! unat i + ?ys ! unat (i - 1)]) len (i + 1)"
    using lt inb inb' by (subst DeltaDecode_loop.simps) simp
  also have "\<dots> = Some xs"
    unfolding upd using Suc.prems by (intro Suc.IH) (simp_all add: succ)
  finally show ?case .
qed

text \<open>
  C3. For a buffer of signed 64-bit integers of length at least 1 (the length fits the
  64-bit length argument), \<open>DeltaEncode\<close> succeeds: it leaves index 0 unchanged and
  replaces the element at every other index by its difference from its predecessor,
  subtraction wrapping around; and \<open>DeltaDecode\<close> on its result gives back the original
  buffer.
\<close>

theorem DeltaDecode_DeltaEncode:
  assumes "1 \<le> length xs" and "length xs < 2 ^ 64"
  shows "\<exists>ys. DeltaEncode xs (of_nat (length xs)) = Some ys
              \<and> length ys = length xs \<and> ys ! 0 = xs ! 0
              \<and> (\<forall>k. 1 \<le> k \<and> k < length xs \<longrightarrow> ys ! k = xs ! k - xs ! (k - 1))
              \<and> DeltaDecode ys (of_nat (length xs)) = Some xs"
proof -
  let ?len = "of_nat (length xs) :: u64"
  let ?ys = "deltas_between 1 (length xs - 1) xs"
  have len: "unat ?len = length xs"
    using assms(2) by (simp add: unat_of_nat)
  with assms(1) have "?len \<noteq> 0" by (auto simp: unat_gt_0 [symmetric])
  then have pred: "unat (?len - 1) = length xs - 1" by (simp add: unat_pred len)
  have enc: "DeltaEncode xs ?len = Some ?ys"
    unfolding DeltaEncode_def using assms(1) DeltaEncode_loop_deltas [of "?len - 1" xs]
    by (simp add: pred)
  have same: "?ys = deltas_between (unat (1::u64)) (length xs) xs"
    by (intro nth_equalityI) (auto simp: deltas_between_def)
  have dec: "DeltaDecode ?ys ?len = Some xs"
    unfolding DeltaDecode_def same
    by (rule DeltaDecode_loop_deltas [OF refl]) (simp_all add: len)
  from assms(1) have "0 < length xs" by linarith
  then have first: "?ys ! 0 = xs ! 0" by (simp add: deltas_between_def)
  have rest: "\<forall>k. 1 \<le> k \<and> k < length xs \<longrightarrow> ?ys ! k = xs ! k - xs ! (k - 1)"
    by (auto simp: deltas_between_def)
  from enc dec first rest show ?thesis by simp
qed

theorem DeltaDecode_DeltaEncode_witness:
  "DeltaEncode [10, 12, 11] 3 = Some [10, 2, -1] \<and> DeltaDecode [10, 2, -1] 3 = Some [10, 12, 11]"
proof -
  have "\<exists>ys. DeltaEncode [10, 12, 11] (of_nat (length [10, 12, 11 :: i64])) = Some ys
              \<and> length ys = length [10, 12, 11 :: i64] \<and> ys ! 0 = [10, 12, 11] ! 0
              \<and> (\<forall>k. 1 \<le> k \<and> k < length [10, 12, 11 :: i64]
                     \<longrightarrow> ys ! k = [10, 12, 11] ! k - [10, 12, 11] ! (k - 1))
              \<and> DeltaDecode ys (of_nat (length [10, 12, 11 :: i64])) = Some [10, 12, 11]"
    by (rule DeltaDecode_DeltaEncode) simp_all
  then obtain ys where "DeltaEncode [10, 12, 11] 3 = Some ys"
    and "DeltaDecode ys 3 = Some [10, 12, 11]" by auto
  moreover have "DeltaEncode [10, 12, 11] 3 = Some [10, 2, -1]"
    by (simp add: DeltaEncode_def DeltaEncode_loop.simps)
  ultimately show ?thesis by simp
qed

text \<open>
  C10. With \<open>length = 0\<close> the counter of \<open>DeltaEncode\<close> starts at \<open>0 - 1 = 2^64 - 1\<close>,
  the test \<open>i > 0\<close> holds and the first access \<open>input[i]\<close> lies outside every buffer
  (of fewer than \<open>2^64\<close> elements): the call is an out-of-bounds access. With
  \<open>length = 1\<close> the body never runs and the buffer is returned unchanged, and with any
  length from 1 to the size of the buffer every access is in bounds.
\<close>

theorem DeltaEncode_length_zero:
  assumes "length input < 2 ^ 64"
  shows "unat ((0::u64) - 1) = 2 ^ 64 - 1 \<and> (0::u64) < 0 - 1
         \<and> DeltaEncode input 0 = None \<and> DeltaEncode input 1 = Some input
         \<and> (len \<noteq> 0 \<and> unat len \<le> length input \<longrightarrow> (\<exists>ys. DeltaEncode input len = Some ys))"
proof -
  have m: "unat (- 1 :: u64) = 2 ^ 64 - 1"
    by (simp add: unsigned_minus_1_eq_mask mask_eq_exp_minus_1)
  have pos: "(0::u64) < - 1" by (simp add: word_gt_0)
  moreover have "\<not> unat (- 1 :: u64) < length input" using assms m by simp
  ultimately have "DeltaEncode_loop input (- 1) = None"
    by (subst DeltaEncode_loop.simps) simp
  moreover have "\<exists>ys. DeltaEncode input len = Some ys"
    if "len \<noteq> 0" and "unat len \<le> length input"
  proof -
    from that have "unat (len - 1) < length input"
      using unat_pred_less [of len] by simp
    then show ?thesis by (simp add: DeltaEncode_def DeltaEncode_loop_deltas)
  qed
  ultimately show ?thesis
    using pos by (simp add: DeltaEncode_def m DeltaEncode_loop.simps [of input 0])
qed

theorem DeltaEncode_length_zero_witness:
  "length [10, 12, 11 :: i64] < 2 ^ 64 \<and> DeltaEncode [10, 12, 11] 0 = None
   \<and> DeltaEncode [10, 12, 11] 1 = Some [10, 12, 11]
   \<and> (\<exists>ys. DeltaEncode [10, 12, 11] 2 = Some ys)"
  using DeltaEncode_length_zero [of "[10, 12, 11]" 2] by simp

section \<open>Zig-zag coding: results\<close>

text \<open>
  \<open>mapped_between f lo hi xs\<close> is \<open>xs\<close> with \<open>f\<close> applied to the elements at the indices
  from \<open>lo\<close> up to, not including, \<open>hi\<close>: the buffer part-way through either loop.
  \<open>zigzag_enc\<close> and \<open>zigzag_dec\<close> are the two loop bodies on one element.
\<close>

definition mapped_between :: "(i64 \<Rightarrow> i64) \<Rightarrow> nat \<Rightarrow> nat \<Rightarrow> i64 list \<Rightarrow> i64 list" where
  "mapped_between f lo hi xs =
     map (\<lambda>k. if lo \<le> k \<and> k < hi then f (xs ! k) else xs ! k) [0..<length xs]"

lemma length_mapped_between [simp]: "length (mapped_between f lo hi xs) = length xs"
  by (simp add: mapped_between_def)

lemma mapped_between_empty: "hi \<le> lo \<Longrightarrow> mapped_between f lo hi xs = xs"
  by (rule nth_equalityI) (auto simp: mapped_between_def)

lemma mapped_between_all: "mapped_between f 0 (length xs) xs = map f xs"
  by (rule nth_equalityI) (auto simp: mapped_between_def)

lemma mapped_between_step:
  assumes "lo < hi" and "lo < length xs"
  shows "mapped_between f (Suc lo) hi (xs[lo := f (xs ! lo)]) = mapped_between f lo hi xs"
  using assms by (intro nth_equalityI) (auto simp: mapped_between_def nth_list_update)

definition zigzag_enc :: "i64 \<Rightarrow> i64" where
  "zigzag_enc x = push_bit 1 x XOR signed_drop_bit 63 x"

definition zigzag_dec :: "i64 \<Rightarrow> i64" where
  "zigzag_dec x = signed_drop_bit 1 x XOR - (x AND 1)"

lemma ZigZagEncode_loop_mapped:
  "unat len \<le> length xs \<Longrightarrow>
   ZigZagEncode_loop xs len 63 i = Some (mapped_between zigzag_enc (unat i) (unat len) xs)"
proof (induction xs len "63::nat" i rule: ZigZagEncode_loop.induct)
  case (1 input len i)
  show ?case
  proof (cases "i < len")
    case False
    then have "unat len \<le> unat i" by (simp add: word_less_nat_alt)
    with False show ?thesis
      by (subst ZigZagEncode_loop.simps) (simp add: mapped_between_empty)
  next
    case True
    then have lt: "unat i < unat len" by (simp add: word_less_nat_alt)
    with "1.prems" have inb: "unat i < length input" by simp
    let ?input' = "input[unat i := push_bit 1 (input ! unat i) XOR signed_drop_bit 63 (input ! unat i)]"
    have "ZigZagEncode_loop input len 63 i = ZigZagEncode_loop ?input' len 63 (i + 1)"
      using True inb by (subst ZigZagEncode_loop.simps) simp
    also have "\<dots> = Some (mapped_between zigzag_enc (unat (i + 1)) (unat len) ?input')"
      using True inb "1.prems" by (intro "1.hyps") simp_all
    also have "mapped_between zigzag_enc (unat (i + 1)) (unat len) ?input'
        = mapped_between zigzag_enc (unat i) (unat len) input"
      using mapped_between_step [OF lt inb, of zigzag_enc]
      by (simp add: unat_succ_less [OF True] zigzag_enc_def)
    finally show ?thesis .
  qed
qed

lemma ZigZagDecode_loop_mapped:
  "unat len \<le> length xs \<Longrightarrow>
   ZigZagDecode_loop xs len i = Some (mapped_between zigzag_dec (unat i) (unat len) xs)"
proof (induction xs len i rule: ZigZagDecode_loop.induct)
  case (1 input len i)
  show ?case
  proof (cases "i < len")
    case False
    then have "unat len \<le> unat i" by (simp add: word_less_nat_alt)
    with False show ?thesis
      by (subst ZigZagDecode_loop.simps) (simp add: mapped_between_empty)
  next
    case True
    then have lt: "unat i < unat len" by (simp add: word_less_nat_alt)
    with "1.prems" have inb: "unat i < length input" by simp
    let ?input' = "input[unat i := signed_drop_bit 1 (input ! unat i) XOR - (input ! unat i AND 1)]"
    have "ZigZagDecode_loop input len i = ZigZagDecode_loop ?input' len (i + 1)"
      using True inb by (subst ZigZagDecode_loop.simps) simp
    also have "\<dots> = Some (mapped_between zigzag_dec (unat (i + 1)) (unat len) ?input')"
      using True inb "1.prems" by (intro "1.IH") simp_all
    also have "mapped_between zigzag_dec (unat (i + 1)) (unat len) ?input'
        = mapped_between zigzag_dec (unat i) (unat len) input"
      using mapped_between_step [OF lt inb, of zigzag_dec]
      by (simp add: unat_succ_less [OF True] zigzag_dec_def)
    finally show ?thesis .
  qed
qed

lemma ZigZagEncode_map:
  "length xs < 2 ^ 64 \<Longrightarrow> ZigZagEncode xs (of_nat (length xs)) = Some (map zigzag_enc xs)"
  using ZigZagEncode_loop_mapped [of "of_nat (length xs)" xs 0]
  by (simp add: ZigZagEncode_def unat_of_nat mapped_between_all)

lemma ZigZagDecode_map:
  "length xs < 2 ^ 64 \<Longrightarrow> ZigZagDecode xs (of_nat (length xs)) = Some (map zigzag_dec xs)"
  using ZigZagDecode_loop_mapped [of "of_nat (length xs)" xs 0]
  by (simp add: ZigZagDecode_def unat_of_nat mapped_between_all)

lemma neg_and_one: "- (y AND 1) = (if bit y 0 then - 1 else (0::i64))"
  by (simp add: and_one_eq mod_2_eq_odd bit_0)

lemma bit_zigzag_enc:
  "bit (zigzag_enc x) i \<longleftrightarrow> i < 64 \<and> ((0 < i \<and> bit x (i - 1)) \<noteq> bit x 63)"
  unfolding zigzag_enc_def bit_xor_iff bit_push_bit_iff bit_signed_drop_bit_iff
  by (cases "i = 0") (auto dest: bit_imp_le_length)

lemma bit_zigzag_dec:
  "bit (zigzag_dec y) i \<longleftrightarrow> i < 64 \<and> (bit y (if i = 63 then 63 else i + 1) \<noteq> bit y 0)"
  unfolding zigzag_dec_def neg_and_one bit_xor_iff bit_signed_drop_bit_iff
  by (auto simp: bit_simps dest: bit_imp_le_length)

lemma bit_zigzag_roundtrip:
  "bit (zigzag_dec (zigzag_enc x)) i \<longleftrightarrow> bit x (if i = 63 then 62 else i)"
  using bit_imp_le_length [of x i]
  by (auto simp: bit_zigzag_dec bit_zigzag_enc)

lemma zigzag_roundtrip_iff:
  "zigzag_dec (zigzag_enc x) = x \<longleftrightarrow> bit x 63 = bit x 62"
proof
  assume "zigzag_dec (zigzag_enc x) = x"
  then have "bit (zigzag_dec (zigzag_enc x)) 63 = bit x 63" by simp
  then show "bit x 63 = bit x 62" by (simp add: bit_zigzag_roundtrip)
next
  assume "bit x 63 = bit x 62"
  then show "zigzag_dec (zigzag_enc x) = x"
    by (intro bit_eqI) (auto simp: bit_zigzag_roundtrip)
qed

text \<open>
  The extent of the round trip: decoding the encoded buffer gives back the buffer exactly
  when the two top bits of every element agree, that is, when every element lies between
  \<open>-2^62\<close> and \<open>2^62 - 1\<close>.
\<close>

lemma ZigZag_round_trip_extent:
  assumes "length xs < 2 ^ 64"
  shows "\<exists>ys. ZigZagEncode xs (of_nat (length xs)) = Some ys
           \<and> (ZigZagDecode ys (of_nat (length xs)) = Some xs
                \<longleftrightarrow> (\<forall>x\<in>set xs. bit x 63 = bit x 62))"
proof -
  have dec: "ZigZagDecode (map zigzag_enc xs) (of_nat (length xs))
               = Some (map zigzag_dec (map zigzag_enc xs))"
    using ZigZagDecode_map [of "map zigzag_enc xs"] assms by simp
  have "map zigzag_dec (map zigzag_enc xs) = xs \<longleftrightarrow> (\<forall>x\<in>set xs. bit x 63 = bit x 62)"
    by (simp add: map_idI zigzag_roundtrip_iff [symmetric] map_eq_conv [of _ xs id, simplified])
  with dec ZigZagEncode_map [OF assms] show ?thesis by simp
qed

lemma signed_drop_bit_63_example: "signed_drop_bit 63 (0x4000000000000000 :: i64) = 0"
  by code_simp

lemma signed_drop_bit_1_example:
  "signed_drop_bit 1 (0x8000000000000000 :: i64) = 0xC000000000000000"
  by code_simp

text \<open>
  C2. \<open>ZigZagDecode\<close> does not undo \<open>ZigZagEncode\<close> on every 64-bit value. On the
  buffer holding the single value \<open>2^62\<close> the encoder stores \<open>2^63\<close> (as a signed value,
  \<open>-2^63\<close>), and the decoder, whose right shift of the signed element copies the sign
  bit, turns it into \<open>0xC000000000000000\<close>, that is \<open>-2^62\<close>.
\<close>

theorem ZigZagDecode_ZigZagEncode_fails:
  "ZigZagEncode [0x4000000000000000] 1 = Some [0x8000000000000000]
   \<and> ZigZagDecode [0x8000000000000000] 1 = Some [0xC000000000000000]
   \<and> sint (0x4000000000000000 :: i64) = 2 ^ 62
   \<and> sint (0xC000000000000000 :: i64) = - (2 ^ 62)"
  by (simp add: ZigZagEncode_def ZigZagDecode_def ZigZagEncode_loop.simps ZigZagDecode_loop.simps
      signed_drop_bit_63_example signed_drop_bit_1_example)

section \<open>Simple8b: the model\<close>

text \<open>
  Conventions of the model.
  \<^item> A pointer into a buffer (\<^verbatim>\<open>input\<close>, \<^verbatim>\<open>in\<close>) is the list of the elements from
    the pointer to the end of the buffer: \<^verbatim>\<open>p[i]\<close> is element \<open>i\<close> of that list,
    \<^verbatim>\<open>p += k\<close> is \<open>drop k\<close>. Reading past the end is undefined behaviour in the source;
    here it is the result \<open>Inl OutOfBounds\<close>.
  \<^item> An output pointer (\<^verbatim>\<open>out\<close>) is the list of the elements written so far, in order;
    \<^verbatim>\<open>out - initout\<close> is its length.
  \<^item> Lengths and counters (\<^verbatim>\<open>uint64_t\<close>, \<^verbatim>\<open>size_t\<close>, \<^verbatim>\<open>uint32_t\<close>) are natural numbers.
    The only subtraction on them, \<^verbatim>\<open>ValuesRemaining -= NumberOfValuesCoded\<close>, never goes
    below zero (lemmas \<open>enc_fast_body_coded\<close> and \<open>enc_careful_body_coded\<close>).
  \<^item> The final \<^verbatim>\<open>else\<close> of the encoder's two selection chains is empty in the source
    (its \<^verbatim>\<open>throw\<close> is commented out). The model records reaching it as the result
    \<open>Inl NoSchemeFits\<close>, so that reaching it can be stated and refuted.
\<close>

datatype fault = OutOfBounds | NoSchemeFits

definition SIMPLE8B_SELECTOR_BITS :: nat where
  "SIMPLE8B_SELECTOR_BITS = 4"

text \<open>\<^verbatim>\<open>*out = (*out << numBits) | value;\<close>\<close>

definition WriteBits :: "u64 \<Rightarrow> u64 \<Rightarrow> nat \<Rightarrow> u64" where
  "WriteBits out v numBits = push_bit numBits out OR v"

subsection \<open>Fit checks\<close>

text \<open>
  The scanning loop shared by \<^verbatim>\<open>TryPackFast\<close> (bound \<^verbatim>\<open>numIntegers\<close>) and
  \<^verbatim>\<open>TryPackCareful\<close> (bound \<^verbatim>\<open>minv\<close>):
  \<^verbatim>\<open>for (uint64_t i = 0; i < bound; i++) if (n[i] >= (1ULL << numBitsPerInt)) return false;\<close>
  \<^verbatim>\<open>return true;\<close>
\<close>

function TryPack_loop :: "nat \<Rightarrow> nat \<Rightarrow> u64 list \<Rightarrow> nat \<Rightarrow> fault + bool" where
  "TryPack_loop bound numBitsPerInt n i =
     (if i < bound then
        (if i < length n then
           (if n ! i \<ge> push_bit numBitsPerInt 1 then Inr False
            else TryPack_loop bound numBitsPerInt n (i + 1))
         else Inl OutOfBounds)
      else Inr True)"
  by pat_completeness auto
termination
  by (relation "measure (\<lambda>(bound, numBitsPerInt, n, i). bound - i)") simp_all

declare TryPack_loop.simps [simp del]

definition TryPackFast :: "nat \<Rightarrow> nat \<Rightarrow> u64 list \<Rightarrow> fault + bool" where
  "TryPackFast numIntegers numBitsPerInt n =
     (if numBitsPerInt \<ge> 32 then Inr True
      else TryPack_loop numIntegers numBitsPerInt n 0)"

definition TryPackCareful :: "nat \<Rightarrow> nat \<Rightarrow> u64 list \<Rightarrow> nat \<Rightarrow> fault + bool" where
  "TryPackCareful numIntegers numBitsPerInt n maxIntegers =
     (if numBitsPerInt \<ge> 32 then Inr True
      else
        let minv = (if maxIntegers < numIntegers then maxIntegers else numIntegers)
        in TryPack_loop minv numBitsPerInt n 0)"

subsection \<open>Unpacking one word\<close>

record dec_state =
  dec_in :: "u64 list"
  dec_out :: "u64 list"

text \<open>
  \<^verbatim>\<open>for (uint32_t k = 0; k < numIntegers; ++k)\<close>
  \<^verbatim>\<open>  *(out++) = static_cast<T>(in[0] >> (64 - SIMPLE8B_SELECTOR_BITS - numBitsPerInt - k * numBitsPerInt)) & mask;\<close>
  The shift amount is computed without wrap-around for every scheme of the table, since
  \<open>(k + 1) * numBitsPerInt \<le> 60\<close> there.
\<close>

function Unpack_loop :: "nat \<Rightarrow> nat \<Rightarrow> u64 \<Rightarrow> nat \<Rightarrow> dec_state \<Rightarrow> fault + dec_state" where
  "Unpack_loop numIntegers numBitsPerInt msk k s =
     (if k < numIntegers then
        (case dec_in s of
           [] \<Rightarrow> Inl OutOfBounds
         | in0 # _ \<Rightarrow>
             Unpack_loop numIntegers numBitsPerInt msk (k + 1)
               (s\<lparr>dec_out := dec_out s @
                   [drop_bit (64 - SIMPLE8B_SELECTOR_BITS - numBitsPerInt - k * numBitsPerInt) in0
                      AND msk]\<rparr>))
      else Inr s)"
  by pat_completeness auto
termination
  by (relation "measure (\<lambda>(numIntegers, numBitsPerInt, msk, k, s). numIntegers - k)") simp_all

declare Unpack_loop.simps [simp del]

text \<open>
  Both branches of \<^verbatim>\<open>if (numBitsPerInt < 32)\<close> hold the same loop; \<^verbatim>\<open>++in\<close> follows.
  \<open>msk\<close> is the source's \<^verbatim>\<open>mask = (1ULL << numBitsPerInt) - 1\<close>.
\<close>

definition UnpackFast :: "nat \<Rightarrow> nat \<Rightarrow> dec_state \<Rightarrow> fault + dec_state" where
  "UnpackFast numIntegers numBitsPerInt s =
     (let msk = push_bit numBitsPerInt 1 - 1;
          r = (if numBitsPerInt < 32
               then Unpack_loop numIntegers numBitsPerInt msk 0 s
               else Unpack_loop numIntegers numBitsPerInt msk 0 s)
      in case r of Inl e \<Rightarrow> Inl e | Inr s' \<Rightarrow> Inr (s'\<lparr>dec_in := drop 1 (dec_in s')\<rparr>))"

definition UnpackCareful :: "nat \<Rightarrow> nat \<Rightarrow> dec_state \<Rightarrow> fault + dec_state" where
  "UnpackCareful numBitsPerInt numIntegers s =
     (let msk = push_bit numBitsPerInt 1 - 1;
          r = (if numBitsPerInt < 32
               then Unpack_loop numIntegers numBitsPerInt msk 0 s
               else Unpack_loop numIntegers numBitsPerInt msk 0 s)
      in case r of Inl e \<Rightarrow> Inl e | Inr s' \<Rightarrow> Inr (s'\<lparr>dec_in := drop 1 (dec_in s')\<rparr>))"

text \<open>\<^verbatim>\<open>return static_cast<uint32_t>((*in) >> (64 - SIMPLE8B_SELECTOR_BITS));\<close>\<close>

definition GetSelectorNum :: "u64 list \<Rightarrow> fault + nat" where
  "GetSelectorNum inp =
     (case inp of
        [] \<Rightarrow> Inl OutOfBounds
      | in0 # _ \<Rightarrow> Inr (unat (ucast (drop_bit (64 - SIMPLE8B_SELECTOR_BITS) in0) :: 32 word)))"

subsection \<open>Packing one word\<close>

text \<open>
  \<open>enc_input\<close> is the pointer \<^verbatim>\<open>input\<close>, \<open>enc_out\<close> the words between
  \<^verbatim>\<open>initout\<close> and \<^verbatim>\<open>out\<close>.
\<close>

record enc_state =
  enc_input :: "u64 list"
  enc_out :: "u64 list"
  ValuesRemaining :: nat
  NumberOfValuesCoded :: nat

text \<open>\<^verbatim>\<open>if (test) { ... } else ...\<close> on a test that may read out of bounds.\<close>

definition if_fits :: "fault + bool \<Rightarrow> fault + 'a \<Rightarrow> fault + 'a \<Rightarrow> fault + 'a" where
  "if_fits t a b = (case t of Inl e \<Rightarrow> Inl e | Inr fits \<Rightarrow> if fits then a else b)"

text \<open>
  The two zero-run branches:
  \<^verbatim>\<open>NumberOfValuesCoded = coded; out[0] = word; input += NumberOfValuesCoded;\<close>
  The word a branch leaves in \<^verbatim>\<open>out[0]\<close> is appended to \<open>enc_out\<close>: that is what the
  \<^verbatim>\<open>++out\<close> after the chain makes of it.
\<close>

definition zero_run :: "nat \<Rightarrow> u64 \<Rightarrow> enc_state \<Rightarrow> fault + enc_state" where
  "zero_run coded out0 s =
     Inr (s\<lparr>NumberOfValuesCoded := coded,
             enc_out := enc_out s @ [out0],
             enc_input := drop coded (enc_input s)\<rparr>)"

text \<open>\<^verbatim>\<open>for (uint32_t i = 0; i < bound; i++) WriteBits(out, *input++, numBits);\<close>\<close>

function WriteBits_loop :: "nat \<Rightarrow> nat \<Rightarrow> nat \<Rightarrow> u64 list \<Rightarrow> u64 \<Rightarrow> fault + u64 list \<times> u64" where
  "WriteBits_loop bound numBits i inp out0 =
     (if i < bound then
        (case inp of
           [] \<Rightarrow> Inl OutOfBounds
         | v # inp' \<Rightarrow> WriteBits_loop bound numBits (i + 1) inp' (WriteBits out0 v numBits))
      else Inr (inp, out0))"
  by pat_completeness auto
termination
  by (relation "measure (\<lambda>(bound, numBits, i, inp, out0). bound - i)") simp_all

declare WriteBits_loop.simps [simp del]

text \<open>
  The fourteen packing branches:
  \<^verbatim>\<open>out[0] = selector; NumberOfValuesCoded = coded;\<close>
  \<^verbatim>\<open>for (i < NumberOfValuesCoded) WriteBits(out, *input++, numBits);\<close>
  \<^verbatim>\<open>out[0] <<= 64 - SIMPLE8B_SELECTOR_BITS - numBits * NumberOfValuesCoded;\<close>
\<close>

definition pack_run :: "u64 \<Rightarrow> nat \<Rightarrow> nat \<Rightarrow> enc_state \<Rightarrow> fault + enc_state" where
  "pack_run selector coded numBits s =
     (case WriteBits_loop coded numBits 0 (enc_input s) selector of
        Inl e \<Rightarrow> Inl e
      | Inr (inp', out0) \<Rightarrow>
          Inr (s\<lparr>NumberOfValuesCoded := coded,
                  enc_out := enc_out s @
                    [push_bit (64 - SIMPLE8B_SELECTOR_BITS - numBits * coded) out0],
                  enc_input := inp'\<rparr>))"

text \<open>After the chain: \<^verbatim>\<open>++out; ValuesRemaining -= NumberOfValuesCoded;\<close>\<close>

definition next_word :: "fault + enc_state \<Rightarrow> fault + enc_state" where
  "next_word r =
     (case r of
        Inl e \<Rightarrow> Inl e
      | Inr s \<Rightarrow> Inr (s\<lparr>ValuesRemaining := ValuesRemaining s - NumberOfValuesCoded s\<rparr>))"

subsection \<open>The encoder's two loop bodies\<close>

text \<open>The body of \<^verbatim>\<open>while (ValuesRemaining >= 240)\<close>.\<close>

definition enc_fast_body :: "enc_state \<Rightarrow> fault + enc_state" where
  "enc_fast_body s = next_word
     (if_fits (TryPackFast 120 0 (enc_input s))
        (if_fits (TryPackFast 120 0 (drop 120 (enc_input s)))
           (zero_run 240 0 s)
           (zero_run 120 (push_bit (64 - SIMPLE8B_SELECTOR_BITS) 1) s))
     (if_fits (TryPackFast 60 1 (enc_input s)) (pack_run 2 60 1 s)
     (if_fits (TryPackFast 30 2 (enc_input s)) (pack_run 3 30 2 s)
     (if_fits (TryPackFast 20 3 (enc_input s)) (pack_run 4 20 3 s)
     (if_fits (TryPackFast 15 4 (enc_input s)) (pack_run 5 15 4 s)
     (if_fits (TryPackFast 12 5 (enc_input s)) (pack_run 6 12 5 s)
     (if_fits (TryPackFast 10 6 (enc_input s)) (pack_run 7 10 6 s)
     (if_fits (TryPackFast 8 7 (enc_input s)) (pack_run 8 8 7 s)
     (if_fits (TryPackFast 7 8 (enc_input s)) (pack_run 9 7 8 s)
     (if_fits (TryPackFast 6 10 (enc_input s)) (pack_run 10 6 10 s)
     (if_fits (TryPackFast 5 12 (enc_input s)) (pack_run 11 5 12 s)
     (if_fits (TryPackFast 4 15 (enc_input s)) (pack_run 12 4 15 s)
     (if_fits (TryPackFast 3 20 (enc_input s)) (pack_run 13 3 20 s)
     (if_fits (TryPackFast 2 30 (enc_input s)) (pack_run 14 2 30 s)
     (if_fits (TryPackFast 1 60 (enc_input s)) (pack_run 15 1 60 s)
     (Inl NoSchemeFits))))))))))))))))"

text \<open>\<^verbatim>\<open>(ValuesRemaining < numIntegers) ? ValuesRemaining : numIntegers\<close>\<close>

definition clamp_coded :: "nat \<Rightarrow> nat \<Rightarrow> nat" where
  "clamp_coded remaining numIntegers = (if remaining < numIntegers then remaining else numIntegers)"

text \<open>The body of \<^verbatim>\<open>while (ValuesRemaining > 0)\<close>.\<close>

definition enc_careful_body :: "enc_state \<Rightarrow> fault + enc_state" where
  "enc_careful_body s = next_word
     (let r = ValuesRemaining s in
      if_fits (TryPackCareful 240 0 (enc_input s) r) (zero_run (clamp_coded r 240) 0 s)
     (if_fits (TryPackCareful 120 0 (enc_input s) r)
        (zero_run (clamp_coded r 120) (push_bit (64 - SIMPLE8B_SELECTOR_BITS) 1) s)
     (if_fits (TryPackCareful 60 1 (enc_input s) r) (pack_run 2 (clamp_coded r 60) 1 s)
     (if_fits (TryPackCareful 30 2 (enc_input s) r) (pack_run 3 (clamp_coded r 30) 2 s)
     (if_fits (TryPackCareful 20 3 (enc_input s) r) (pack_run 4 (clamp_coded r 20) 3 s)
     (if_fits (TryPackCareful 15 4 (enc_input s) r) (pack_run 5 (clamp_coded r 15) 4 s)
     (if_fits (TryPackCareful 12 5 (enc_input s) r) (pack_run 6 (clamp_coded r 12) 5 s)
     (if_fits (TryPackCareful 10 6 (enc_input s) r) (pack_run 7 (clamp_coded r 10) 6 s)
     (if_fits (TryPackCareful 8 7 (enc_input s) r) (pack_run 8 (clamp_coded r 8) 7 s)
     (if_fits (TryPackCareful 7 8 (enc_input s) r) (pack_run 9 (clamp_coded r 7) 8 s)
     (if_fits (TryPackCareful 6 10 (enc_input s) r) (pack_run 10 (clamp_coded r 6) 10 s)
     (if_fits (TryPackCareful 5 12 (enc_input s) r) (pack_run 11 (clamp_coded r 5) 12 s)
     (if_fits (TryPackCareful 4 15 (enc_input s) r) (pack_run 12 (clamp_coded r 4) 15 s)
     (if_fits (TryPackCareful 3 20 (enc_input s) r) (pack_run 13 (clamp_coded r 3) 20 s)
     (if_fits (TryPackCareful 2 30 (enc_input s) r) (pack_run 14 (clamp_coded r 2) 30 s)
     (if_fits (TryPackCareful 1 60 (enc_input s) r) (pack_run 15 (clamp_coded r 1) 60 s)
     (Inl NoSchemeFits)))))))))))))))))"

subsection \<open>The decoder's two loop bodies\<close>

text \<open>
  The body of \<^verbatim>\<open>while (end > out + 240)\<close>: a \<^verbatim>\<open>switch\<close> on the selector, whose
  \<^verbatim>\<open>default\<close> changes nothing.
\<close>

definition dec_fast_body :: "dec_state \<Rightarrow> fault + dec_state" where
  "dec_fast_body s =
     (case GetSelectorNum (dec_in s) of
        Inl e \<Rightarrow> Inl e
      | Inr sel \<Rightarrow>
          if sel = 0 then UnpackFast 240 0 s
          else if sel = 1 then UnpackFast 120 0 s
          else if sel = 2 then UnpackFast 60 1 s
          else if sel = 3 then UnpackFast 30 2 s
          else if sel = 4 then UnpackFast 20 3 s
          else if sel = 5 then UnpackFast 15 4 s
          else if sel = 6 then UnpackFast 12 5 s
          else if sel = 7 then UnpackFast 10 6 s
          else if sel = 8 then UnpackFast 8 7 s
          else if sel = 9 then UnpackFast 7 8 s
          else if sel = 10 then UnpackFast 6 10 s
          else if sel = 11 then UnpackFast 5 12 s
          else if sel = 12 then UnpackFast 4 15 s
          else if sel = 13 then UnpackFast 3 20 s
          else if sel = 14 then UnpackFast 2 30 s
          else if sel = 15 then UnpackFast 1 60 s
          else Inr s)"

text \<open>
  The body of \<^verbatim>\<open>while (end > out)\<close>, with \<open>remaining\<close> for \<^verbatim>\<open>end - out\<close>. Its cast
  to \<^verbatim>\<open>uint32_t\<close> changes nothing: the first loop leaves at most 240 values to write.
\<close>

definition dec_careful_body :: "nat \<Rightarrow> dec_state \<Rightarrow> fault + dec_state" where
  "dec_careful_body uncompressedLength s =
     (case GetSelectorNum (dec_in s) of
        Inl e \<Rightarrow> Inl e
      | Inr sel \<Rightarrow>
          let remaining = uncompressedLength - length (dec_out s) in
          if sel = 0 then UnpackCareful 0 (min remaining 240) s
          else if sel = 1 then UnpackCareful 0 (min remaining 120) s
          else if sel = 2 then UnpackCareful 1 (min remaining 60) s
          else if sel = 3 then UnpackCareful 2 (min remaining 30) s
          else if sel = 4 then UnpackCareful 3 (min remaining 20) s
          else if sel = 5 then UnpackCareful 4 (min remaining 15) s
          else if sel = 6 then UnpackCareful 5 (min remaining 12) s
          else if sel = 7 then UnpackCareful 6 (min remaining 10) s
          else if sel = 8 then UnpackCareful 7 (min remaining 8) s
          else if sel = 9 then UnpackCareful 8 (min remaining 7) s
          else if sel = 10 then UnpackCareful 10 (min remaining 6) s
          else if sel = 11 then UnpackCareful 12 (min remaining 5) s
          else if sel = 12 then UnpackCareful 15 (min remaining 4) s
          else if sel = 13 then UnpackCareful 20 (min remaining 3) s
          else if sel = 14 then UnpackCareful 30 (min remaining 2) s
          else if sel = 15 then UnpackCareful 60 1 s
          else Inr s)"

subsection \<open>The encoder's loops\<close>

lemma if_fits_InrE:
  assumes "if_fits t a b = Inr r"
  obtains "t = Inr True" "a = Inr r" | "t = Inr False" "b = Inr r"
  using assms by (auto simp: if_fits_def split: sum.splits if_splits)

lemma next_word_InrE:
  assumes "next_word x = Inr s'"
  obtains s'' where "x = Inr s''"
    and "s' = s''\<lparr>ValuesRemaining := ValuesRemaining s'' - NumberOfValuesCoded s''\<rparr>"
  using assms by (auto simp: next_word_def split: sum.splits)

lemma zero_run_Inr:
  "zero_run c w s = Inr s' \<Longrightarrow>
     ValuesRemaining s' = ValuesRemaining s \<and> NumberOfValuesCoded s' = c
     \<and> enc_out s' = enc_out s @ [w] \<and> enc_input s' = drop c (enc_input s)"
  by (auto simp: zero_run_def)

lemma pack_run_Inr:
  "pack_run sel c w s = Inr s' \<Longrightarrow>
     ValuesRemaining s' = ValuesRemaining s \<and> NumberOfValuesCoded s' = c
     \<and> length (enc_out s') = Suc (length (enc_out s))"
  by (auto simp: pack_run_def split: sum.splits prod.splits)

lemma enc_fast_body_coded:
  assumes "enc_fast_body s = Inr s'"
  shows "1 \<le> NumberOfValuesCoded s' \<and> NumberOfValuesCoded s' \<le> 240
         \<and> ValuesRemaining s' = ValuesRemaining s - NumberOfValuesCoded s'
         \<and> length (enc_out s') = Suc (length (enc_out s))"
  using assms unfolding enc_fast_body_def
  apply (elim next_word_InrE if_fits_InrE)
  apply (auto dest!: zero_run_Inr pack_run_Inr)
  done

lemma enc_careful_body_coded:
  assumes "enc_careful_body s = Inr s'" and "0 < ValuesRemaining s"
  shows "1 \<le> NumberOfValuesCoded s' \<and> NumberOfValuesCoded s' \<le> ValuesRemaining s
         \<and> ValuesRemaining s' = ValuesRemaining s - NumberOfValuesCoded s'
         \<and> length (enc_out s') = Suc (length (enc_out s))"
  using assms unfolding enc_careful_body_def Let_def
  apply (elim next_word_InrE if_fits_InrE)
  apply (auto dest!: zero_run_Inr pack_run_Inr simp: clamp_coded_def)
  done

function enc_fast_loop :: "enc_state \<Rightarrow> fault + enc_state" where
  "enc_fast_loop s =
     (if ValuesRemaining s \<ge> 240 then
        (case enc_fast_body s of Inl e \<Rightarrow> Inl e | Inr s' \<Rightarrow> enc_fast_loop s')
      else Inr s)"
  by pat_completeness auto
termination
proof (relation "measure ValuesRemaining")
  fix s s' :: enc_state
  assume "240 \<le> ValuesRemaining s" and "enc_fast_body s = Inr s'"
  then show "(s', s) \<in> measure ValuesRemaining"
    using enc_fast_body_coded [of s s'] by auto
qed simp

declare enc_fast_loop.simps [simp del]

function enc_careful_loop :: "enc_state \<Rightarrow> fault + enc_state" where
  "enc_careful_loop s =
     (if ValuesRemaining s > 0 then
        (case enc_careful_body s of Inl e \<Rightarrow> Inl e | Inr s' \<Rightarrow> enc_careful_loop s')
      else Inr s)"
  by pat_completeness auto
termination
proof (relation "measure ValuesRemaining")
  fix s s' :: enc_state
  assume "0 < ValuesRemaining s" and "enc_careful_body s = Inr s'"
  then show "(s', s) \<in> measure ValuesRemaining"
    using enc_careful_body_coded [of s s'] by auto
qed simp

declare enc_careful_loop.simps [simp del]

text \<open>
  \<open>enc_run\<close> is the two loops of \<^verbatim>\<open>Simple8bEncode\<close>, one after the other;
  \<open>enc_init\<close> its local variables on entry. The function returns
  \<^verbatim>\<open>out - initout\<close>; the model returns the words written along with it.
\<close>

definition enc_init :: "u64 list \<Rightarrow> nat \<Rightarrow> enc_state" where
  "enc_init input inputLength =
     \<lparr>enc_input = input, enc_out = [], ValuesRemaining = inputLength, NumberOfValuesCoded = 0\<rparr>"

definition enc_run :: "enc_state \<Rightarrow> fault + enc_state" where
  "enc_run s = (case enc_fast_loop s of Inl e \<Rightarrow> Inl e | Inr s' \<Rightarrow> enc_careful_loop s')"

definition Simple8bEncode :: "u64 list \<Rightarrow> nat \<Rightarrow> fault + nat \<times> u64 list" where
  "Simple8bEncode input inputLength =
     (case enc_run (enc_init input inputLength) of
        Inl e \<Rightarrow> Inl e
      | Inr s \<Rightarrow> Inr (length (enc_out s), enc_out s))"

subsection \<open>The decoder's loops\<close>

text \<open>
  The selector table, read off the template arguments in the two \<^verbatim>\<open>switch\<close>
  statements, and the values one word holds.
\<close>

lemma selector_less_16: "unat (ucast (drop_bit 60 (w::u64)) :: 32 word) < 16"
proof -
  have "unat w < 2 ^ 64" using unsigned_less [of w, where 'a=nat] by simp
  then have "unat w div 2 ^ 60 < 16" by simp
  then have "unat (drop_bit 60 w) < 16" by (simp add: unat_drop_bit_eq drop_bit_eq_div unat_div)
  then show ?thesis by (simp add: unsigned_ucast_eq take_bit_nat_eq_self)
qed

lemma selector_ucast: "unat (ucast (drop_bit 60 (w::u64)) :: 32 word) = unat (drop_bit 60 w)"
proof -
  have "unat w < 2 ^ 64" using unsigned_less [of w, where 'a=nat] by simp
  then have "unat w div 2 ^ 60 < 16" by simp
  then have "unat (drop_bit 60 w) < 16" by (simp add: unat_drop_bit_eq drop_bit_eq_div unat_div)
  then show ?thesis by (simp add: unsigned_ucast_eq take_bit_nat_eq_self)
qed

lemma GetSelectorNum_Cons:
  "GetSelectorNum (in0 # rest) = Inr (unat (drop_bit 60 in0))"
  by (simp add: GetSelectorNum_def SIMPLE8B_SELECTOR_BITS_def selector_ucast)

lemma GetSelectorNum_Nil: "GetSelectorNum [] = Inl OutOfBounds"
  by (simp add: GetSelectorNum_def)

definition scheme_count :: "nat \<Rightarrow> nat" where
  "scheme_count sel = [240, 120, 60, 30, 20, 15, 12, 10, 8, 7, 6, 5, 4, 3, 2, 1] ! sel"

definition scheme_width :: "nat \<Rightarrow> nat" where
  "scheme_width sel = [0, 0, 1, 2, 3, 4, 5, 6, 7, 8, 10, 12, 15, 20, 30, 60] ! sel"

definition unpack_word :: "nat \<Rightarrow> nat \<Rightarrow> u64 \<Rightarrow> u64 list" where
  "unpack_word c w in0 = map (\<lambda>k. drop_bit (60 - w - k * w) in0 AND mask w) [0..<c]"

lemma length_unpack_word [simp]: "length (unpack_word c w in0) = c"
  by (simp add: unpack_word_def)

lemma Unpack_loop_eq:
  "dec_in s = in0 # rest \<Longrightarrow>
   Unpack_loop n w msk k s =
     Inr (s\<lparr>dec_out := dec_out s @ map (\<lambda>j. drop_bit (60 - w - j * w) in0 AND msk) [k..<n]\<rparr>)"
proof (induction n w msk k s rule: Unpack_loop.induct)
  case (1 numIntegers numBitsPerInt msk k s)
  show ?case
  proof (cases "k < numIntegers")
    case True
    let ?s1 = "s\<lparr>dec_out := dec_out s @
                   [drop_bit (64 - SIMPLE8B_SELECTOR_BITS - numBitsPerInt - k * numBitsPerInt) in0
                      AND msk]\<rparr>"
    have "Unpack_loop numIntegers numBitsPerInt msk k s
            = Unpack_loop numIntegers numBitsPerInt msk (k + 1) ?s1"
      using True "1.prems" by (subst Unpack_loop.simps) simp
    also have "\<dots> = Inr (?s1\<lparr>dec_out := dec_out ?s1 @
        map (\<lambda>j. drop_bit (60 - numBitsPerInt - j * numBitsPerInt) in0 AND msk) [k + 1..<numIntegers]\<rparr>)"
      using "1.prems" by (intro "1.IH" [OF True]) simp_all
    finally show ?thesis
      using True by (simp add: upt_conv_Cons SIMPLE8B_SELECTOR_BITS_def)
  next
    case False
    then show ?thesis by (subst Unpack_loop.simps) simp
  qed
qed

lemma msk_eq_mask: "push_bit w 1 - 1 = (mask w :: u64)"
  by (simp add: mask_eq_exp_minus_1)

lemma UnpackFast_eq:
  "dec_in s = in0 # rest \<Longrightarrow>
   UnpackFast n w s = Inr \<lparr>dec_in = rest, dec_out = dec_out s @ unpack_word n w in0\<rparr>"
  by (cases s) (simp add: UnpackFast_def Unpack_loop_eq [of _ in0 rest] unpack_word_def
      flip: mask_eq_exp_minus_1)

lemma UnpackCareful_eq:
  "dec_in s = in0 # rest \<Longrightarrow>
   UnpackCareful w n s = Inr \<lparr>dec_in = rest, dec_out = dec_out s @ unpack_word n w in0\<rparr>"
  by (cases s) (simp add: UnpackCareful_def Unpack_loop_eq [of _ in0 rest] unpack_word_def
      flip: mask_eq_exp_minus_1)

lemma less_16_cases:
  assumes "sel < (16::nat)"
  obtains "sel = 0" | "sel = 1" | "sel = 2" | "sel = 3" | "sel = 4" | "sel = 5" | "sel = 6"
    | "sel = 7" | "sel = 8" | "sel = 9" | "sel = 10" | "sel = 11" | "sel = 12" | "sel = 13"
    | "sel = 14" | "sel = 15"
proof -
  from assms have "sel = 0 \<or> sel = 1 \<or> sel = 2 \<or> sel = 3 \<or> sel = 4 \<or> sel = 5 \<or> sel = 6
    \<or> sel = 7 \<or> sel = 8 \<or> sel = 9 \<or> sel = 10 \<or> sel = 11 \<or> sel = 12 \<or> sel = 13
    \<or> sel = 14 \<or> sel = 15" by presburger
  with that show thesis by blast
qed

lemma unat_selector_less: "unat (drop_bit 60 (w::u64)) < 16"
  using selector_less_16 [of w] by (simp add: selector_ucast)

lemma dec_fast_body_eq:
  assumes "dec_in s = in0 # rest"
  shows "dec_fast_body s =
     Inr \<lparr>dec_in = rest,
          dec_out = dec_out s @ unpack_word (scheme_count (unat (drop_bit 60 in0)))
                                  (scheme_width (unat (drop_bit 60 in0))) in0\<rparr>"
  using unat_selector_less [of in0]
  by (rule less_16_cases)
     (simp_all add: dec_fast_body_def GetSelectorNum_Cons assms UnpackFast_eq [OF assms]
        scheme_count_def scheme_width_def)

lemma dec_careful_body_eq:
  assumes "dec_in s = in0 # rest" and "length (dec_out s) < n"
  shows "dec_careful_body n s =
     Inr \<lparr>dec_in = rest,
          dec_out = dec_out s @
            unpack_word (min (n - length (dec_out s)) (scheme_count (unat (drop_bit 60 in0))))
                        (scheme_width (unat (drop_bit 60 in0))) in0\<rparr>"
proof -
  from assms(2) have one: "min (n - length (dec_out s)) (Suc 0) = Suc 0" by simp
  show ?thesis
    using unat_selector_less [of in0]
    by (rule less_16_cases)
       (simp_all add: dec_careful_body_def GetSelectorNum_Cons assms UnpackCareful_eq [OF assms(1)]
          scheme_count_def scheme_width_def one)
qed

lemma scheme_count_bounds: "sel < 16 \<Longrightarrow> 1 \<le> scheme_count sel \<and> scheme_count sel \<le> 240"
  by (erule less_16_cases) (simp_all add: scheme_count_def)

lemma dec_fast_body_Nil: "dec_in s = [] \<Longrightarrow> dec_fast_body s = Inl OutOfBounds"
  by (simp add: dec_fast_body_def GetSelectorNum_Nil)

lemma dec_careful_body_Nil: "dec_in s = [] \<Longrightarrow> dec_careful_body n s = Inl OutOfBounds"
  by (simp add: dec_careful_body_def GetSelectorNum_Nil)

lemma dec_fast_body_grows:
  assumes "dec_fast_body s = Inr s'"
  shows "length (dec_out s) < length (dec_out s') \<and> length (dec_out s') \<le> length (dec_out s) + 240
         \<and> dec_in s' = drop 1 (dec_in s)"
proof (cases "dec_in s")
  case Nil
  with assms show ?thesis by (simp add: dec_fast_body_Nil)
next
  case (Cons in0 rest)
  from assms show ?thesis
    unfolding dec_fast_body_eq [OF Cons]
    using scheme_count_bounds [OF unat_selector_less [of in0]] Cons by auto
qed

lemma dec_careful_body_grows:
  assumes "dec_careful_body n s = Inr s'" and "length (dec_out s) < n"
  shows "length (dec_out s) < length (dec_out s') \<and> length (dec_out s') \<le> n
         \<and> dec_in s' = drop 1 (dec_in s)"
proof (cases "dec_in s")
  case Nil
  with assms show ?thesis by (simp add: dec_careful_body_Nil)
next
  case (Cons in0 rest)
  from assms show ?thesis
    unfolding dec_careful_body_eq [OF Cons assms(2)]
    using scheme_count_bounds [OF unat_selector_less [of in0]] Cons by auto
qed

function dec_fast_loop :: "nat \<Rightarrow> dec_state \<Rightarrow> fault + dec_state" where
  "dec_fast_loop uncompressedLength s =
     (if uncompressedLength > length (dec_out s) + 240 then
        (case dec_fast_body s of Inl e \<Rightarrow> Inl e | Inr s' \<Rightarrow> dec_fast_loop uncompressedLength s')
      else Inr s)"
  by pat_completeness auto
termination
proof (relation "measure (\<lambda>(uncompressedLength, s). uncompressedLength - length (dec_out s))")
  fix uncompressedLength :: nat and s s' :: dec_state
  assume "length (dec_out s) + 240 < uncompressedLength" and "dec_fast_body s = Inr s'"
  then show "((uncompressedLength, s'), (uncompressedLength, s))
      \<in> measure (\<lambda>(uncompressedLength, s). uncompressedLength - length (dec_out s))"
    using dec_fast_body_grows [of s s'] by auto
qed simp

declare dec_fast_loop.simps [simp del]

function dec_careful_loop :: "nat \<Rightarrow> dec_state \<Rightarrow> fault + dec_state" where
  "dec_careful_loop uncompressedLength s =
     (if uncompressedLength > length (dec_out s) then
        (case dec_careful_body uncompressedLength s of
           Inl e \<Rightarrow> Inl e
         | Inr s' \<Rightarrow> dec_careful_loop uncompressedLength s')
      else Inr s)"
  by pat_completeness auto
termination
proof (relation "measure (\<lambda>(uncompressedLength, s). uncompressedLength - length (dec_out s))")
  fix uncompressedLength :: nat and s s' :: dec_state
  assume "length (dec_out s) < uncompressedLength"
    and "dec_careful_body uncompressedLength s = Inr s'"
  then show "((uncompressedLength, s'), (uncompressedLength, s))
      \<in> measure (\<lambda>(uncompressedLength, s). uncompressedLength - length (dec_out s))"
    using dec_careful_body_grows [of uncompressedLength s s'] by auto
qed simp

declare dec_careful_loop.simps [simp del]

text \<open>
  \<open>dec_run\<close> is the two loops of \<^verbatim>\<open>Simple8bDecode\<close>, one after the other. The
  function returns \<^verbatim>\<open>out - initout\<close>; the model returns the values written along with
  it.
\<close>

definition dec_run :: "nat \<Rightarrow> dec_state \<Rightarrow> fault + dec_state" where
  "dec_run n d = (case dec_fast_loop n d of Inl e \<Rightarrow> Inl e | Inr d' \<Rightarrow> dec_careful_loop n d')"

definition Simple8bDecode :: "u64 list \<Rightarrow> nat \<Rightarrow> fault + nat \<times> u64 list" where
  "Simple8bDecode input uncompressedLength =
     (case dec_run uncompressedLength \<lparr>dec_in = input, dec_out = []\<rparr> of
        Inl e \<Rightarrow> Inl e
      | Inr s \<Rightarrow> Inr (length (dec_out s), dec_out s))"


section \<open>Simple8b: packing and unpacking bit fields\<close>

text \<open>
  \<open>pack_bits w acc vs\<close> is what the write loop leaves in \<^verbatim>\<open>out[0]\<close> after writing
  the values \<open>vs\<close>, \<open>w\<close> bits each, onto \<open>acc\<close>. A value fits \<open>w\<close> bits when
  \<open>take_bit w v = v\<close>.
\<close>

definition pack_bits :: "nat \<Rightarrow> u64 \<Rightarrow> u64 list \<Rightarrow> u64" where
  "pack_bits w acc vs = foldl (\<lambda>a v. WriteBits a v w) acc vs"

lemma pack_bits_Nil [simp]: "pack_bits w acc [] = acc"
  by (simp add: pack_bits_def)

lemma pack_bits_Cons [simp]: "pack_bits w acc (v # vs) = pack_bits w (push_bit w acc OR v) vs"
  by (simp add: pack_bits_def WriteBits_def)

lemma pack_bits_append: "pack_bits w acc (us @ vs) = pack_bits w (pack_bits w acc us) vs"
  by (simp add: pack_bits_def)

lemma take_bit_fitD: "take_bit m (x::u64) = x \<Longrightarrow> bit x n \<Longrightarrow> n < m"
  by (metis bit_take_bit_iff)

lemma take_bit_fitI: "(\<And>n. bit x n \<Longrightarrow> n < m) \<Longrightarrow> take_bit m (x::u64) = x"
  by (rule bit_eqI) (auto simp: bit_simps)

lemma take_bit_mono_le: "take_bit m (x::u64) = x \<Longrightarrow> m \<le> n \<Longrightarrow> take_bit n x = x"
  by (rule take_bit_fitI) (auto dest: take_bit_fitD)

lemma drop_push_fit:
  assumes "take_bit (64 - w) (acc::u64) = acc" and "take_bit w v = v"
  shows "drop_bit w (push_bit w acc OR v) = acc"
proof (rule bit_eqI)
  fix n
  assume "possible_bit TYPE(u64) n"
  have "\<not> bit v (w + n)" using take_bit_fitD [OF assms(2), of "w + n"] by auto
  moreover have "bit acc n \<Longrightarrow> w + n < 64" using take_bit_fitD [OF assms(1), of n] by auto
  ultimately show "bit (drop_bit w (push_bit w acc OR v)) n = bit acc n"
    by (auto simp: bit_simps)
qed

lemma take_push_fit:
  assumes "take_bit m (acc::u64) = acc" and "take_bit w v = v"
  shows "take_bit (m + w) (push_bit w acc OR v) = push_bit w acc OR v"
proof (rule take_bit_fitI)
  fix n
  assume "bit (push_bit w acc OR v) n"
  then consider "w \<le> n" "bit acc (n - w)" | "bit v n" by (auto simp: bit_simps)
  then show "n < m + w"
  proof cases
    case 1
    with take_bit_fitD [OF assms(1), of "n - w"] show ?thesis by simp
  next
    case 2
    with take_bit_fitD [OF assms(2), of n] show ?thesis by simp
  qed
qed

lemma take_low_fit:
  assumes "take_bit w (v::u64) = v"
  shows "take_bit w (push_bit w acc OR v) = v"
proof (rule bit_eqI)
  fix n
  assume "possible_bit TYPE(u64) n"
  have "bit v n \<Longrightarrow> n < w" using take_bit_fitD [OF assms, of n] by auto
  then show "bit (take_bit w (push_bit w acc OR v)) n = bit v n"
    by (auto simp: bit_simps)
qed

lemma drop_push_push:
  assumes "take_bit (64 - a) (P::u64) = P"
  shows "drop_bit (a + b) (push_bit a P) = drop_bit b P"
proof (rule bit_eqI)
  fix n
  assume "possible_bit TYPE(u64) n"
  have "bit P (b + n) \<Longrightarrow> a + b + n < 64" using take_bit_fitD [OF assms, of "b + n"] by auto
  then show "bit (drop_bit (a + b) (push_bit a P)) n = bit (drop_bit b P) n"
    by (auto simp: bit_simps add.assoc)
qed

lemma pack_bits_bound:
  "\<forall>v\<in>set vs. take_bit w v = v \<Longrightarrow> take_bit m acc = acc \<Longrightarrow>
   take_bit (m + w * length vs) (pack_bits w acc vs) = pack_bits w acc vs"
proof (induction vs arbitrary: acc m)
  case Nil
  then show ?case by simp
next
  case (Cons v vs)
  have "take_bit (m + w) (push_bit w acc OR v) = push_bit w acc OR v"
    using Cons.prems by (intro take_push_fit) simp_all
  from Cons.IH [OF _ this] Cons.prems(1) show ?case by (simp add: algebra_simps)
qed

lemma pack_bits_drop:
  "\<forall>v\<in>set vs. take_bit w v = v \<Longrightarrow> take_bit (64 - w * length vs) acc = acc \<Longrightarrow>
   w * length vs \<le> 64 \<Longrightarrow>
   drop_bit (w * length vs) (pack_bits w acc vs) = acc"
proof (induction vs arbitrary: acc)
  case Nil
  then show ?case by simp
next
  case (Cons v vs)
  let ?acc = "push_bit w acc OR v"
  from Cons.prems have fit: "take_bit w v = v" and le: "w + w * length vs \<le> 64" by simp_all
  have "take_bit ((64 - (w + w * length vs)) + w) ?acc = ?acc"
    using Cons.prems fit by (intro take_push_fit) simp_all
  moreover have "(64 - (w + w * length vs)) + w = 64 - w * length vs" using le by simp
  ultimately have "take_bit (64 - w * length vs) ?acc = ?acc" by simp
  with Cons.prems le have "drop_bit (w * length vs) (pack_bits w ?acc vs) = ?acc"
    by (intro Cons.IH) simp_all
  then have "drop_bit w (drop_bit (w * length vs) (pack_bits w ?acc vs)) = drop_bit w ?acc"
    by simp
  then have "drop_bit (w * length (v # vs)) (pack_bits w acc (v # vs)) = drop_bit w ?acc"
    by (simp add: add.commute)
  also have "\<dots> = acc"
  proof (rule drop_push_fit [OF _ fit])
    from Cons.prems(2) show "take_bit (64 - w) acc = acc"
      by (rule take_bit_mono_le) simp
  qed
  finally show ?case .
qed

lemma pack_bits_nth:
  assumes fit: "\<forall>v\<in>set vs. take_bit w v = v" and k: "k < length vs"
    and acc: "take_bit (64 - w * length vs) acc = acc" and le: "w * length vs \<le> 64"
  shows "take_bit w (drop_bit (w * (length vs - 1 - k)) (pack_bits w acc vs)) = vs ! k"
proof -
  let ?pre = "take k vs" and ?post = "drop (Suc k) vs"
  let ?acc = "push_bit w (pack_bits w acc ?pre) OR vs ! k"
  have vs: "vs = ?pre @ vs ! k # ?post" using k by (rule id_take_nth_drop)
  have lpost: "length ?post = length vs - 1 - k" by simp
  have fitk: "take_bit w (vs ! k) = vs ! k" using fit k by simp
  have "pack_bits w acc vs = pack_bits w acc (?pre @ vs ! k # ?post)" using vs by simp
  then have split: "pack_bits w acc vs = pack_bits w ?acc ?post"
    by (simp add: pack_bits_append)
  have "take_bit ((64 - w * length vs) + w * length ?pre) (pack_bits w acc ?pre)
          = pack_bits w acc ?pre"
    using fit acc by (intro pack_bits_bound) (auto dest: in_set_takeD)
  then have "take_bit ((64 - w * length vs) + w * length ?pre + w) ?acc = ?acc"
    using fitk by (intro take_push_fit)
  moreover have "(64 - w * length vs) + w * length ?pre + w \<le> 64 - w * length ?post"
  proof -
    define a b where "a = length ?pre" and "b = length ?post"
    have "length vs = a + 1 + b" using k by (simp add: a_def b_def)
    then have "w * length vs = w * a + w + w * b"
      by (simp only: distrib_left mult_1_right)
    with le show ?thesis unfolding a_def [symmetric] b_def [symmetric] by simp
  qed
  ultimately have "take_bit (64 - w * length ?post) ?acc = ?acc"
    by (rule take_bit_mono_le)
  moreover have "w * length ?post \<le> 64"
  proof -
    have "length ?post \<le> length vs" by simp
    then have "w * length ?post \<le> w * length vs" by (rule mult_le_mono2)
    then show ?thesis using le by (rule le_trans)
  qed
  ultimately have "drop_bit (w * length ?post) (pack_bits w ?acc ?post) = ?acc"
    using fit by (intro pack_bits_drop) (auto dest: in_set_dropD)
  then have "drop_bit (w * (length vs - 1 - k)) (pack_bits w acc vs) = ?acc"
    using split lpost by simp
  then have "take_bit w (drop_bit (w * (length vs - 1 - k)) (pack_bits w acc vs)) = take_bit w ?acc"
    by (simp only:)
  also have "\<dots> = vs ! k" using fitk by (rule take_low_fit)
  finally show ?thesis .
qed


lemma mask_and_take_bit: "x AND mask w = take_bit w (x::u64)"
  by (simp add: take_bit_eq_mask)

lemma word_roundtrip_selector:
  assumes sel: "take_bit 4 (sel::u64) = sel" and fit: "\<forall>v\<in>set vs. take_bit w v = v"
    and le: "w * length vs \<le> 60"
  shows "drop_bit 60 (push_bit (60 - w * length vs) (pack_bits w sel vs)) = sel"
proof -
  let ?P = "pack_bits w sel vs" and ?a = "60 - w * length vs"
  have "take_bit (4 + w * length vs) ?P = ?P" using fit sel by (rule pack_bits_bound)
  moreover have "64 - ?a = 4 + w * length vs" using le by simp
  ultimately have "take_bit (64 - ?a) ?P = ?P" by simp
  then have "drop_bit (?a + w * length vs) (push_bit ?a ?P) = drop_bit (w * length vs) ?P"
    by (rule drop_push_push)
  moreover have "?a + w * length vs = 60" using le by simp
  moreover have "drop_bit (w * length vs) ?P = sel"
  proof (rule pack_bits_drop [OF fit])
    show "take_bit (64 - w * length vs) sel = sel"
      using sel by (rule take_bit_mono_le) (use le in simp)
    show "w * length vs \<le> 64" using le by simp
  qed
  ultimately show ?thesis by simp
qed

lemma word_roundtrip_values:
  assumes sel: "take_bit 4 (sel::u64) = sel" and fit: "\<forall>v\<in>set vs. take_bit w v = v"
    and le: "w * length vs \<le> 60"
  shows "unpack_word (length vs) w (push_bit (60 - w * length vs) (pack_bits w sel vs)) = vs"
proof (rule nth_equalityI)
  show "length (unpack_word (length vs) w (push_bit (60 - w * length vs) (pack_bits w sel vs)))
          = length vs" by simp
next
  fix k
  assume "k < length (unpack_word (length vs) w (push_bit (60 - w * length vs) (pack_bits w sel vs)))"
  then have k: "k < length vs" by simp
  let ?P = "pack_bits w sel vs" and ?a = "60 - w * length vs" and ?b = "w * (length vs - 1 - k)"
  have "take_bit (4 + w * length vs) ?P = ?P" using fit sel by (rule pack_bits_bound)
  moreover have "64 - ?a = 4 + w * length vs" using le by simp
  ultimately have "take_bit (64 - ?a) ?P = ?P" by simp
  then have shift: "drop_bit (?a + ?b) (push_bit ?a ?P) = drop_bit ?b ?P"
    by (rule drop_push_push)
  have idx: "60 - w - k * w = ?a + ?b"
  proof -
    define b where "b = length vs - 1 - k"
    have "length vs = Suc k + b" using k by (simp add: b_def)
    then have "w * length vs = w * Suc k + w * b" by (simp only: distrib_left)
    with le have "60 - w - k * w = (60 - w * length vs) + w * b"
      by (simp add: mult.commute)
    then show ?thesis by (simp only: b_def)
  qed
  have sel64: "take_bit (64 - w * length vs) sel = sel"
    using sel by (rule take_bit_mono_le) (use le in simp)
  have nth: "take_bit w (drop_bit ?b ?P) = vs ! k"
    using fit k sel64 by (rule pack_bits_nth) (use le in simp)
  have "unpack_word (length vs) w (push_bit ?a ?P) ! k
          = drop_bit (60 - w - k * w) (push_bit ?a ?P) AND mask w"
    using k by (simp add: unpack_word_def)
  also have "\<dots> = take_bit w (drop_bit (?a + ?b) (push_bit ?a ?P))"
    by (simp only: idx mask_and_take_bit)
  also have "\<dots> = take_bit w (drop_bit ?b ?P)" by (simp only: shift)
  also have "\<dots> = vs ! k" by (fact nth)
  finally show "unpack_word (length vs) w (push_bit ?a ?P) ! k = vs ! k" .
qed

section \<open>Simple8b: what one iteration does\<close>

text \<open>
  \<open>fits w vs\<close>: every value of \<open>vs\<close> passes the magnitude test of the scanning loop for
  width \<open>w\<close>.
\<close>

definition fits :: "nat \<Rightarrow> u64 list \<Rightarrow> bool" where
  "fits w vs \<longleftrightarrow> (\<forall>v\<in>set vs. v < push_bit w 1)"

lemma fits_Nil [simp]: "fits w []"
  by (simp add: fits_def)

lemma fits_append: "fits w (us @ vs) \<longleftrightarrow> fits w us \<and> fits w vs"
  by (auto simp: fits_def)

lemma TryPack_loop_True_iff:
  "TryPack_loop bound w n i = Inr True
     \<longleftrightarrow> (\<forall>j. i \<le> j \<and> j < bound \<longrightarrow> j < length n \<and> n ! j < push_bit w 1)"
proof (induction bound w n i rule: TryPack_loop.induct)
  case (1 bound w n i)
  show ?case
  proof (cases "i < bound")
    case False
    then show ?thesis by (subst TryPack_loop.simps) auto
  next
    case True
    show ?thesis
    proof (cases "i < length n")
      case False
      with True show ?thesis by (subst TryPack_loop.simps) auto
    next
      case inb: True
      show ?thesis
      proof (cases "push_bit w 1 \<le> n ! i")
        case True
        with \<open>i < bound\<close> inb show ?thesis
          by (subst TryPack_loop.simps) (auto simp: not_less [symmetric])
      next
        case False
        have "TryPack_loop bound w n i = TryPack_loop bound w n (i + 1)"
          using \<open>i < bound\<close> inb False by (subst TryPack_loop.simps) simp
        also have "\<dots> = Inr True
            \<longleftrightarrow> (\<forall>j. i + 1 \<le> j \<and> j < bound \<longrightarrow> j < length n \<and> n ! j < push_bit w 1)"
          using \<open>i < bound\<close> inb False by (rule "1.IH")
        also have "\<dots> \<longleftrightarrow> (\<forall>j. i \<le> j \<and> j < bound \<longrightarrow> j < length n \<and> n ! j < push_bit w 1)"
        proof (intro iffI allI impI)
          fix j
          assume rest: "\<forall>j. i + 1 \<le> j \<and> j < bound \<longrightarrow> j < length n \<and> n ! j < push_bit w 1"
            and j: "i \<le> j \<and> j < bound"
          show "j < length n \<and> n ! j < push_bit w 1"
          proof (cases "j = i")
            case True
            with inb False show ?thesis by (simp add: not_le)
          next
            case False
            with j have "i + 1 \<le> j \<and> j < bound" by simp
            with rest show ?thesis by blast
          qed
        next
          fix j
          assume "\<forall>j. i \<le> j \<and> j < bound \<longrightarrow> j < length n \<and> n ! j < push_bit w 1"
            and "i + 1 \<le> j \<and> j < bound"
          then show "j < length n \<and> n ! j < push_bit w 1" by simp
        qed
        finally show ?thesis .
      qed
    qed
  qed
qed

lemma TryPack_loop_in_range:
  "bound \<le> length n \<Longrightarrow> \<exists>b. TryPack_loop bound w n i = Inr b"
proof (induction bound w n i rule: TryPack_loop.induct)
  case (1 bound w n i)
  show ?case
  proof (cases "i < bound \<and> \<not> push_bit w 1 \<le> n ! i")
    case True
    with "1.prems" have "TryPack_loop bound w n i = TryPack_loop bound w n (i + 1)"
      by (subst TryPack_loop.simps) simp
    with "1.IH" True "1.prems" show ?thesis by simp
  next
    case False
    with "1.prems" show ?thesis by (subst TryPack_loop.simps) auto
  qed
qed

lemma TryPack_loop_fits:
  assumes "bound \<le> length n"
  shows "TryPack_loop bound w n 0 = Inr (fits w (take bound n))"
proof -
  from assms obtain b where b: "TryPack_loop bound w n 0 = Inr b"
    using TryPack_loop_in_range by blast
  have "b \<longleftrightarrow> TryPack_loop bound w n 0 = Inr True" using b by simp
  also have "\<dots> \<longleftrightarrow> (\<forall>j<bound. n ! j < push_bit w 1)"
    using assms by (auto simp: TryPack_loop_True_iff)
  also have "\<dots> \<longleftrightarrow> fits w (take bound n)"
    using assms by (simp add: fits_def all_set_conv_all_nth)
  finally show ?thesis using b by simp
qed

lemma TryPackFast_fits:
  "w < 32 \<Longrightarrow> c \<le> length n \<Longrightarrow> TryPackFast c w n = Inr (fits w (take c n))"
  by (simp add: TryPackFast_def TryPack_loop_fits)

lemma TryPackCareful_fits:
  "w < 32 \<Longrightarrow> r \<le> length n \<Longrightarrow> TryPackCareful c w n r = Inr (fits w (take (min r c) n))"
  by (simp add: TryPackCareful_def TryPack_loop_fits min_def)

lemma TryPackFast_wide: "32 \<le> w \<Longrightarrow> TryPackFast c w n = Inr True"
  by (simp add: TryPackFast_def)

lemma TryPackCareful_wide: "32 \<le> w \<Longrightarrow> TryPackCareful c w n r = Inr True"
  by (simp add: TryPackCareful_def)

lemma if_fits_Inr [simp]: "if_fits (Inr b) x y = (if b then x else y)"
  by (simp add: if_fits_def)

lemma WriteBits_loop_eq:
  "bound - i \<le> length inp \<Longrightarrow>
   WriteBits_loop bound w i inp acc
     = Inr (drop (bound - i) inp, pack_bits w acc (take (bound - i) inp))"
proof (induction bound w i inp acc rule: WriteBits_loop.induct)
  case (1 bound w i inp acc)
  show ?case
  proof (cases "i < bound")
    case False
    then show ?thesis by (subst WriteBits_loop.simps) simp
  next
    case True
    with "1.prems" obtain v inp' where inp: "inp = v # inp'" by (cases inp) auto
    from True have step: "bound - i = Suc (bound - (i + 1))" by simp
    have "WriteBits_loop bound w i inp acc
            = WriteBits_loop bound w (i + 1) inp' (WriteBits acc v w)"
      using True inp by (subst WriteBits_loop.simps) simp
    also have "\<dots> = Inr (drop (bound - (i + 1)) inp',
                            pack_bits w (WriteBits acc v w) (take (bound - (i + 1)) inp'))"
      using True inp "1.prems" by (intro "1.IH") simp_all
    finally show ?thesis
      unfolding step inp by (simp add: WriteBits_def)
  qed
qed

lemma pack_run_eq:
  "c \<le> length (enc_input s) \<Longrightarrow>
   pack_run sel c w s =
     Inr (s\<lparr>NumberOfValuesCoded := c,
             enc_out := enc_out s @ [push_bit (60 - w * c) (pack_bits w sel (take c (enc_input s)))],
             enc_input := drop c (enc_input s)\<rparr>)"
  using WriteBits_loop_eq [of c 0 "enc_input s" w sel]
  by (simp add: pack_run_def SIMPLE8B_SELECTOR_BITS_def)

lemma fits_zero_iff: "fits 0 vs \<longleftrightarrow> (\<forall>v\<in>set vs. v = 0)"
  by (simp add: fits_def word_less_1)

lemma pack_bits_zero: "fits 0 vs \<Longrightarrow> pack_bits 0 acc vs = acc"
  by (induction vs arbitrary: acc) (simp_all add: fits_zero_iff)

text \<open>
  The two selection chains, seen through the selector table. \<open>scheme_fits sel s\<close> is the
  answer of the fit test of scheme \<open>sel\<close> in state \<open>s\<close>; \<open>first_fit s\<close> is the first
  scheme, in the order of the chain, whose test answers true (scheme 15 always does);
  \<open>emit sel s\<close> is the state after the branch of scheme \<open>sel\<close> and the two statements
  that follow the chain. The lemmas \<open>enc_careful_body_eq\<close> and \<open>enc_fast_body_eq\<close> below
  show that both loop bodies are \<open>emit (first_fit s) s\<close>.
\<close>

definition scheme_fits :: "nat \<Rightarrow> enc_state \<Rightarrow> bool" where
  "scheme_fits sel s \<longleftrightarrow>
     32 \<le> scheme_width sel
     \<or> fits (scheme_width sel) (take (min (ValuesRemaining s) (scheme_count sel)) (enc_input s))"

definition emit :: "nat \<Rightarrow> enc_state \<Rightarrow> enc_state" where
  "emit sel s =
     (let c = min (ValuesRemaining s) (scheme_count sel); w = scheme_width sel
      in s\<lparr>NumberOfValuesCoded := c,
            enc_out := enc_out s @
              [push_bit (60 - w * c) (pack_bits w (of_nat sel) (take c (enc_input s)))],
            enc_input := drop c (enc_input s),
            ValuesRemaining := ValuesRemaining s - c\<rparr>)"

definition first_fit :: "enc_state \<Rightarrow> nat" where
  "first_fit s =
     (if scheme_fits 0 s then 0 else if scheme_fits 1 s then 1 else if scheme_fits 2 s then 2
      else if scheme_fits 3 s then 3 else if scheme_fits 4 s then 4 else if scheme_fits 5 s then 5
      else if scheme_fits 6 s then 6 else if scheme_fits 7 s then 7 else if scheme_fits 8 s then 8
      else if scheme_fits 9 s then 9 else if scheme_fits 10 s then 10
      else if scheme_fits 11 s then 11 else if scheme_fits 12 s then 12
      else if scheme_fits 13 s then 13 else if scheme_fits 14 s then 14 else 15)"

lemma scheme_fits_15: "scheme_fits 15 s"
  by (simp add: scheme_fits_def scheme_width_def)

lemma first_fit_less: "first_fit s < 16"
  by (simp add: first_fit_def)

lemma first_fit_fits: "scheme_fits (first_fit s) s"
  by (simp add: first_fit_def scheme_fits_15)

lemma zero_run_emit:
  assumes "fits 0 (take c (enc_input s))" and "sel = 0 \<or> sel = 1"
  shows "next_word (zero_run c (push_bit 60 (of_nat sel)) s)
     = Inr (s\<lparr>NumberOfValuesCoded := c,
             enc_out := enc_out s @
               [push_bit (60 - 0 * c) (pack_bits 0 (of_nat sel) (take c (enc_input s)))],
             enc_input := drop c (enc_input s),
             ValuesRemaining := ValuesRemaining s - c\<rparr>)"
  using assms by (simp add: zero_run_def next_word_def pack_bits_zero)

lemma pack_run_emit:
  assumes "c \<le> length (enc_input s)"
  shows "next_word (pack_run sel c w s)
     = Inr (s\<lparr>NumberOfValuesCoded := c,
             enc_out := enc_out s @ [push_bit (60 - w * c) (pack_bits w sel (take c (enc_input s)))],
             enc_input := drop c (enc_input s),
             ValuesRemaining := ValuesRemaining s - c\<rparr>)"
  using assms by (simp add: pack_run_eq next_word_def)

lemma clamp_coded_min: "clamp_coded r c = min r c"
  by (simp add: clamp_coded_def min_def)

lemma TryPackCareful_scheme:
  assumes "sel < 16" and "ValuesRemaining s \<le> length (enc_input s)"
  shows "TryPackCareful (scheme_count sel) (scheme_width sel) (enc_input s) (ValuesRemaining s)
           = Inr (scheme_fits sel s)"
proof (cases "scheme_width sel < 32")
  case True
  with assms(2) show ?thesis by (simp add: TryPackCareful_fits scheme_fits_def)
next
  case False
  then show ?thesis by (simp add: TryPackCareful_wide scheme_fits_def)
qed

lemma pack_branch_emit:
  assumes "ValuesRemaining s \<le> length (enc_input s)"
  shows "next_word (pack_run (of_nat sel) (clamp_coded (ValuesRemaining s) (scheme_count sel))
                      (scheme_width sel) s) = Inr (emit sel s)"
  using assms by (simp add: pack_run_eq next_word_def emit_def clamp_coded_min Let_def)

lemma zero_branch_emit:
  assumes "scheme_fits sel s" and "scheme_width sel = 0"
  shows "next_word (zero_run (clamp_coded (ValuesRemaining s) (scheme_count sel))
                      (push_bit 60 (of_nat sel)) s) = Inr (emit sel s)"
  using assms
  by (simp add: zero_run_def next_word_def emit_def clamp_coded_min Let_def scheme_fits_def
      pack_bits_zero)

lemmas careful_tests =
  TryPackCareful_scheme [of 0, unfolded scheme_count_def scheme_width_def, simplified]
  TryPackCareful_scheme [of 1, unfolded scheme_count_def scheme_width_def, simplified]
  TryPackCareful_scheme [of 2, unfolded scheme_count_def scheme_width_def, simplified]
  TryPackCareful_scheme [of 3, unfolded scheme_count_def scheme_width_def, simplified]
  TryPackCareful_scheme [of 4, unfolded scheme_count_def scheme_width_def, simplified]
  TryPackCareful_scheme [of 5, unfolded scheme_count_def scheme_width_def, simplified]
  TryPackCareful_scheme [of 6, unfolded scheme_count_def scheme_width_def, simplified]
  TryPackCareful_scheme [of 7, unfolded scheme_count_def scheme_width_def, simplified]
  TryPackCareful_scheme [of 8, unfolded scheme_count_def scheme_width_def, simplified]
  TryPackCareful_scheme [of 9, unfolded scheme_count_def scheme_width_def, simplified]
  TryPackCareful_scheme [of 10, unfolded scheme_count_def scheme_width_def, simplified]
  TryPackCareful_scheme [of 11, unfolded scheme_count_def scheme_width_def, simplified]
  TryPackCareful_scheme [of 12, unfolded scheme_count_def scheme_width_def, simplified]
  TryPackCareful_scheme [of 13, unfolded scheme_count_def scheme_width_def, simplified]
  TryPackCareful_scheme [of 14, unfolded scheme_count_def scheme_width_def, simplified]
  TryPackCareful_scheme [of 15, unfolded scheme_count_def scheme_width_def, simplified]


lemmas pack_branches =
  pack_branch_emit [of _ 2, unfolded scheme_count_def scheme_width_def, simplified]
  pack_branch_emit [of _ 3, unfolded scheme_count_def scheme_width_def, simplified]
  pack_branch_emit [of _ 4, unfolded scheme_count_def scheme_width_def, simplified]
  pack_branch_emit [of _ 5, unfolded scheme_count_def scheme_width_def, simplified]
  pack_branch_emit [of _ 6, unfolded scheme_count_def scheme_width_def, simplified]
  pack_branch_emit [of _ 7, unfolded scheme_count_def scheme_width_def, simplified]
  pack_branch_emit [of _ 8, unfolded scheme_count_def scheme_width_def, simplified]
  pack_branch_emit [of _ 9, unfolded scheme_count_def scheme_width_def, simplified]
  pack_branch_emit [of _ 10, unfolded scheme_count_def scheme_width_def, simplified]
  pack_branch_emit [of _ 11, unfolded scheme_count_def scheme_width_def, simplified]
  pack_branch_emit [of _ 12, unfolded scheme_count_def scheme_width_def, simplified]
  pack_branch_emit [of _ 13, unfolded scheme_count_def scheme_width_def, simplified]
  pack_branch_emit [of _ 14, unfolded scheme_count_def scheme_width_def, simplified]
  pack_branch_emit [of _ 15, unfolded scheme_count_def scheme_width_def, simplified]


lemmas zero_branches =
  zero_branch_emit [of 0, unfolded scheme_count_def scheme_width_def, simplified]
  zero_branch_emit [of 1, unfolded scheme_count_def scheme_width_def, simplified]


lemma enc_careful_body_eq:
  assumes "ValuesRemaining s \<le> length (enc_input s)"
  shows "enc_careful_body s = Inr (emit (first_fit s) s)"
  unfolding enc_careful_body_def Let_def first_fit_def
  using assms
  by (simp add: careful_tests pack_branches zero_branches scheme_fits_15
      SIMPLE8B_SELECTOR_BITS_def)

lemma TryPackFast_scheme:
  assumes "sel < 16" and "240 \<le> ValuesRemaining s"
    and "ValuesRemaining s \<le> length (enc_input s)"
  shows "TryPackFast (scheme_count sel) (scheme_width sel) (enc_input s) = Inr (scheme_fits sel s)"
proof -
  from assms(1,2) have "scheme_count sel \<le> ValuesRemaining s"
    using scheme_count_bounds [of sel] by simp
  then have "TryPackFast (scheme_count sel) (scheme_width sel) (enc_input s)
      = TryPackCareful (scheme_count sel) (scheme_width sel) (enc_input s) (ValuesRemaining s)"
    by (simp add: TryPackFast_def TryPackCareful_def)
  with assms show ?thesis by (simp add: TryPackCareful_scheme)
qed

lemma pack_branch_emit_fast:
  assumes "sel < 16" and "240 \<le> ValuesRemaining s"
    and "ValuesRemaining s \<le> length (enc_input s)"
  shows "next_word (pack_run (of_nat sel) (scheme_count sel) (scheme_width sel) s)
           = Inr (emit sel s)"
proof -
  from assms(1,2) have "clamp_coded (ValuesRemaining s) (scheme_count sel) = scheme_count sel"
    using scheme_count_bounds [of sel] by (simp add: clamp_coded_def)
  with pack_branch_emit [OF assms(3), of sel] show ?thesis by simp
qed

lemma zero_branch_emit_fast:
  assumes "sel < 16" and "240 \<le> ValuesRemaining s"
    and "scheme_fits sel s" and "scheme_width sel = 0"
  shows "next_word (zero_run (scheme_count sel) (push_bit 60 (of_nat sel)) s) = Inr (emit sel s)"
proof -
  from assms(1,2) have "clamp_coded (ValuesRemaining s) (scheme_count sel) = scheme_count sel"
    using scheme_count_bounds [of sel] by (simp add: clamp_coded_def)
  with zero_branch_emit [OF assms(3,4)] show ?thesis by simp
qed

lemmas fast_tests =
  TryPackFast_scheme [of 1, unfolded scheme_count_def scheme_width_def, simplified]
  TryPackFast_scheme [of 2, unfolded scheme_count_def scheme_width_def, simplified]
  TryPackFast_scheme [of 3, unfolded scheme_count_def scheme_width_def, simplified]
  TryPackFast_scheme [of 4, unfolded scheme_count_def scheme_width_def, simplified]
  TryPackFast_scheme [of 5, unfolded scheme_count_def scheme_width_def, simplified]
  TryPackFast_scheme [of 6, unfolded scheme_count_def scheme_width_def, simplified]
  TryPackFast_scheme [of 7, unfolded scheme_count_def scheme_width_def, simplified]
  TryPackFast_scheme [of 8, unfolded scheme_count_def scheme_width_def, simplified]
  TryPackFast_scheme [of 9, unfolded scheme_count_def scheme_width_def, simplified]
  TryPackFast_scheme [of 10, unfolded scheme_count_def scheme_width_def, simplified]
  TryPackFast_scheme [of 11, unfolded scheme_count_def scheme_width_def, simplified]
  TryPackFast_scheme [of 12, unfolded scheme_count_def scheme_width_def, simplified]
  TryPackFast_scheme [of 13, unfolded scheme_count_def scheme_width_def, simplified]
  TryPackFast_scheme [of 14, unfolded scheme_count_def scheme_width_def, simplified]
  TryPackFast_scheme [of 15, unfolded scheme_count_def scheme_width_def, simplified]

lemmas fast_pack_branches =
  pack_branch_emit_fast [of 2, unfolded scheme_count_def scheme_width_def, simplified]
  pack_branch_emit_fast [of 3, unfolded scheme_count_def scheme_width_def, simplified]
  pack_branch_emit_fast [of 4, unfolded scheme_count_def scheme_width_def, simplified]
  pack_branch_emit_fast [of 5, unfolded scheme_count_def scheme_width_def, simplified]
  pack_branch_emit_fast [of 6, unfolded scheme_count_def scheme_width_def, simplified]
  pack_branch_emit_fast [of 7, unfolded scheme_count_def scheme_width_def, simplified]
  pack_branch_emit_fast [of 8, unfolded scheme_count_def scheme_width_def, simplified]
  pack_branch_emit_fast [of 9, unfolded scheme_count_def scheme_width_def, simplified]
  pack_branch_emit_fast [of 10, unfolded scheme_count_def scheme_width_def, simplified]
  pack_branch_emit_fast [of 11, unfolded scheme_count_def scheme_width_def, simplified]
  pack_branch_emit_fast [of 12, unfolded scheme_count_def scheme_width_def, simplified]
  pack_branch_emit_fast [of 13, unfolded scheme_count_def scheme_width_def, simplified]
  pack_branch_emit_fast [of 14, unfolded scheme_count_def scheme_width_def, simplified]
  pack_branch_emit_fast [of 15, unfolded scheme_count_def scheme_width_def, simplified]

lemmas fast_zero_branches =
  zero_branch_emit_fast [of 0, unfolded scheme_count_def scheme_width_def, simplified]
  zero_branch_emit_fast [of 1, unfolded scheme_count_def scheme_width_def, simplified]

lemma second_half_test:
  assumes "240 \<le> ValuesRemaining s" and "ValuesRemaining s \<le> length (enc_input s)"
  shows "TryPackFast 120 0 (drop 120 (enc_input s))
           = Inr (fits 0 (take 120 (drop 120 (enc_input s))))"
  using assms by (simp add: TryPackFast_fits)

lemma scheme_fits_0_split:
  assumes "240 \<le> ValuesRemaining s"
  shows "scheme_fits 0 s
           \<longleftrightarrow> scheme_fits (Suc 0) s \<and> fits 0 (take 120 (drop 120 (enc_input s)))"
proof -
  have "take 240 (enc_input s) = take 120 (enc_input s) @ take 120 (drop 120 (enc_input s))"
    using take_add [of 120 120 "enc_input s"] by simp
  with assms show ?thesis
    by (simp add: scheme_fits_def scheme_width_def scheme_count_def fits_append)
qed

lemma enc_fast_body_eq:
  assumes "240 \<le> ValuesRemaining s" and "ValuesRemaining s \<le> length (enc_input s)"
  shows "enc_fast_body s = Inr (emit (first_fit s) s)"
  unfolding enc_fast_body_def first_fit_def
  using assms
  by (simp add: fast_tests fast_pack_branches fast_zero_branches second_half_test
      scheme_fits_0_split scheme_fits_15 SIMPLE8B_SELECTOR_BITS_def)

lemma emit_fields:
  "ValuesRemaining (emit sel s) = ValuesRemaining s - min (ValuesRemaining s) (scheme_count sel)"
  "enc_input (emit sel s) = drop (min (ValuesRemaining s) (scheme_count sel)) (enc_input s)"
  "NumberOfValuesCoded (emit sel s) = min (ValuesRemaining s) (scheme_count sel)"
  "enc_out (emit sel s) = enc_out s @
     [push_bit (60 - scheme_width sel * min (ValuesRemaining s) (scheme_count sel))
        (pack_bits (scheme_width sel) (of_nat sel)
           (take (min (ValuesRemaining s) (scheme_count sel)) (enc_input s)))]"
  by (simp_all add: emit_def Let_def)

lemma enc_careful_loop_small:
  assumes "ValuesRemaining s < 240"
  shows "enc_run s = enc_careful_loop s"
  using assms by (simp add: enc_run_def enc_fast_loop.simps [of s])

lemma enc_run_unfold:
  assumes "ValuesRemaining s \<le> length (enc_input s)"
  shows "enc_run s = (if ValuesRemaining s = 0 then Inr s else enc_run (emit (first_fit s) s))"
proof (cases "240 \<le> ValuesRemaining s")
  case True
  then show ?thesis
    using assms
    by (simp add: enc_run_def enc_fast_loop.simps [of s] enc_fast_body_eq)
next
  case False
  then have small: "ValuesRemaining s < 240" by simp
  show ?thesis
  proof (cases "ValuesRemaining s = 0")
    case True
    then show ?thesis
      by (simp add: enc_run_def enc_fast_loop.simps [of s] enc_careful_loop.simps [of s])
  next
    case False
    have "ValuesRemaining (emit (first_fit s) s) < 240"
      using small by (simp add: emit_fields)
    then have "enc_run (emit (first_fit s) s) = enc_careful_loop (emit (first_fit s) s)"
      by (rule enc_careful_loop_small)
    with False small assms show ?thesis
      by (simp add: enc_careful_loop_small enc_careful_loop.simps [of s] enc_careful_body_eq)
  qed
qed

section \<open>Simple8b: the round trip of a whole run\<close>

text \<open>
  \<open>dec_word n d w\<close>: the values either decoder loop writes for the word \<open>w\<close> when
  \<open>n\<close> values are wanted in all and the state is \<open>d\<close>.
\<close>

definition dec_word :: "nat \<Rightarrow> dec_state \<Rightarrow> u64 \<Rightarrow> u64 list" where
  "dec_word n d w =
     unpack_word (min (n - length (dec_out d)) (scheme_count (unat (drop_bit 60 w))))
                 (scheme_width (unat (drop_bit 60 w))) w"

lemma dec_run_done: "n \<le> length (dec_out d) \<Longrightarrow> dec_run n d = Inr d"
  by (simp add: dec_run_def dec_fast_loop.simps [of n d] dec_careful_loop.simps [of n d])

lemma dec_run_small:
  "n \<le> length (dec_out d) + 240 \<Longrightarrow> dec_run n d = dec_careful_loop n d"
  by (simp add: dec_run_def dec_fast_loop.simps [of n d])

lemma dec_run_Nil:
  "length (dec_out d) < n \<Longrightarrow> dec_in d = [] \<Longrightarrow> dec_run n d = Inl OutOfBounds"
  by (simp add: dec_run_def dec_fast_loop.simps [of n d] dec_careful_loop.simps [of n d]
      dec_fast_body_Nil dec_careful_body_Nil)

lemma dec_run_Cons:
  assumes "length (dec_out d) < n" and "dec_in d = w # rest"
  shows "dec_run n d = dec_run n \<lparr>dec_in = rest, dec_out = dec_out d @ dec_word n d w\<rparr>"
proof (cases "length (dec_out d) + 240 < n")
  case True
  have "scheme_count (unat (drop_bit 60 w)) \<le> 240"
    using scheme_count_bounds [OF unat_selector_less [of w]] by simp
  with True have "min (n - length (dec_out d)) (scheme_count (unat (drop_bit 60 w)))
      = scheme_count (unat (drop_bit 60 w))" by simp
  with True show ?thesis
    by (simp add: dec_run_def dec_fast_loop.simps [of n d] dec_fast_body_eq [OF assms(2)]
        dec_word_def)
next
  case False
  let ?d' = "\<lparr>dec_in = rest, dec_out = dec_out d @ dec_word n d w\<rparr>"
  from False have "n \<le> length (dec_out ?d') + 240" by simp
  then have "dec_run n ?d' = dec_careful_loop n ?d'" by (rule dec_run_small)
  moreover have "dec_run n d = dec_careful_loop n d" using False by (simp add: dec_run_small)
  ultimately show ?thesis
    using assms
    by (simp add: dec_careful_loop.simps [of n d] dec_careful_body_eq [OF assms(2,1)] dec_word_def)
qed

lemma scheme_capacity: "sel < 16 \<Longrightarrow> scheme_width sel * scheme_count sel \<le> 60"
  by (erule less_16_cases) (simp_all add: scheme_width_def scheme_count_def)

lemma scheme_width_small: "sel < 15 \<Longrightarrow> scheme_width sel < 32"
proof -
  assume "sel < 15"
  then have "sel < 16" by simp
  then show ?thesis
    by (rule less_16_cases) (use \<open>sel < 15\<close> in \<open>simp_all add: scheme_width_def\<close>)
qed

lemma selector_fits_4: "sel < 16 \<Longrightarrow> take_bit 4 (of_nat sel :: u64) = of_nat sel"
  by (erule less_16_cases) simp_all

lemma unat_selector: "sel < 16 \<Longrightarrow> unat (of_nat sel :: u64) = sel"
  by (simp add: unat_of_nat)

lemma fits_take_bit: "fits w vs \<Longrightarrow> \<forall>v\<in>set vs. take_bit w v = v"
  by (auto simp: fits_def take_bit_eq_mask intro: less_mask_eq)

lemma emit_word_roundtrip:
  assumes sel: "sel < 16" and fit: "fits (scheme_width sel) (take c xs)"
    and c: "c \<le> scheme_count sel" "c \<le> length xs"
  defines "W \<equiv> push_bit (60 - scheme_width sel * c) (pack_bits (scheme_width sel) (of_nat sel) (take c xs))"
  shows "unat (drop_bit 60 W) = sel" and "unpack_word c (scheme_width sel) W = take c xs"
proof -
  let ?w = "scheme_width sel" and ?vs = "take c xs"
  have len: "length ?vs = c" using c by simp
  have "?w * c \<le> ?w * scheme_count sel" using c(1) by (rule mult_le_mono2)
  then have "?w * c \<le> 60" using scheme_capacity [OF sel] by (rule le_trans)
  then have cap: "?w * length ?vs \<le> 60" by (simp only: len)
  note facts = selector_fits_4 [OF sel] fits_take_bit [OF fit] cap
  have "drop_bit 60 (push_bit (60 - ?w * length ?vs) (pack_bits ?w (of_nat sel) ?vs)) = of_nat sel"
    using facts by (rule word_roundtrip_selector)
  then show "unat (drop_bit 60 W) = sel"
    unfolding W_def len by (simp add: unat_selector [OF sel])
  have "unpack_word (length ?vs) ?w (push_bit (60 - ?w * length ?vs) (pack_bits ?w (of_nat sel) ?vs))
          = ?vs"
    using facts by (rule word_roundtrip_values)
  then show "unpack_word c ?w W = ?vs" unfolding W_def len .
qed

lemma less_2p60_fits: "\<forall>v\<in>set xs. v < 2 ^ 60 \<Longrightarrow> fits 60 (take c xs)"
  by (auto simp: fits_def dest: in_set_takeD)

lemma scheme_fits_imp_fits:
  assumes "scheme_fits sel s" and "sel < 16" and "\<forall>v\<in>set (enc_input s). v < 2 ^ 60"
  shows "fits (scheme_width sel)
           (take (min (ValuesRemaining s) (scheme_count sel)) (enc_input s))"
proof (cases "sel = 15")
  case True
  with assms(3) show ?thesis by (simp add: scheme_width_def less_2p60_fits)
next
  case False
  with assms(2) have "scheme_width sel < 32" by (intro scheme_width_small) simp
  with assms(1) show ?thesis by (simp add: scheme_fits_def)
qed

lemma roundtrip_run:
  assumes "ValuesRemaining s = length (enc_input s)"
    and "\<forall>v\<in>set (enc_input s). v < 2 ^ 60"
  shows "\<exists>s' ws. enc_run s = Inr s' \<and> enc_out s' = enc_out s @ ws
           \<and> (\<forall>rest out0. dec_run (length out0 + length (enc_input s))
                               \<lparr>dec_in = ws @ rest, dec_out = out0\<rparr>
                             = Inr \<lparr>dec_in = rest, dec_out = out0 @ enc_input s\<rparr>)"
  using assms
proof (induction "ValuesRemaining s" arbitrary: s rule: less_induct)
  case less
  let ?xs = "enc_input s"
  show ?case
  proof (cases "ValuesRemaining s = 0")
    case True
    with less.prems have "enc_run s = Inr s" and "?xs = []"
      by (simp_all add: enc_run_unfold)
    then show ?thesis by (simp add: dec_run_done)
  next
    case False
    define sel where "sel = first_fit s"
    define c where "c = min (ValuesRemaining s) (scheme_count sel)"
    define W where "W = push_bit (60 - scheme_width sel * c)
                          (pack_bits (scheme_width sel) (of_nat sel) (take c ?xs))"
    let ?s1 = "emit sel s"
    have sel: "sel < 16" by (simp add: sel_def first_fit_less)
    have c_pos: "0 < c" and c_le: "c \<le> scheme_count sel" "c \<le> length ?xs"
      using False less.prems(1) scheme_count_bounds [OF sel] by (simp_all add: c_def)
    have fit: "fits (scheme_width sel) (take c ?xs)"
      unfolding c_def using first_fit_fits [of s] sel less.prems(2)
      by (intro scheme_fits_imp_fits) (simp_all add: sel_def)
    have run: "enc_run s = enc_run ?s1"
      using False less.prems(1) by (simp add: enc_run_unfold sel_def)
    have s1: "ValuesRemaining ?s1 = length ?xs - c" "enc_input ?s1 = drop c ?xs"
      "enc_out ?s1 = enc_out s @ [W]"
      using less.prems(1) by (simp_all add: emit_fields c_def W_def)
    have "\<exists>s' ws. enc_run ?s1 = Inr s' \<and> enc_out s' = enc_out ?s1 @ ws
           \<and> (\<forall>rest out0. dec_run (length out0 + length (enc_input ?s1))
                               \<lparr>dec_in = ws @ rest, dec_out = out0\<rparr>
                             = Inr \<lparr>dec_in = rest, dec_out = out0 @ enc_input ?s1\<rparr>)"
    proof (rule less.hyps)
      show "ValuesRemaining ?s1 < ValuesRemaining s"
        using c_pos c_le less.prems(1) by (simp add: s1)
      show "ValuesRemaining ?s1 = length (enc_input ?s1)" by (simp add: s1)
      show "\<forall>v\<in>set (enc_input ?s1). v < 2 ^ 60"
        using less.prems(2) by (auto simp: s1 dest: in_set_dropD)
    qed
    then obtain s' ws where enc: "enc_run ?s1 = Inr s'" and out: "enc_out s' = enc_out ?s1 @ ws"
      and dec: "\<And>rest out0. dec_run (length out0 + length (drop c ?xs))
                               \<lparr>dec_in = ws @ rest, dec_out = out0\<rparr>
                             = Inr \<lparr>dec_in = rest, dec_out = out0 @ drop c ?xs\<rparr>"
      unfolding s1 by blast
    have word: "unat (drop_bit 60 W) = sel" "unpack_word c (scheme_width sel) W = take c ?xs"
      unfolding W_def using sel fit c_le by (rule emit_word_roundtrip)+
    have "dec_run (length out0 + length ?xs) \<lparr>dec_in = (W # ws) @ rest, dec_out = out0\<rparr>
            = Inr \<lparr>dec_in = rest, dec_out = out0 @ ?xs\<rparr>" for rest out0
    proof -
      let ?n = "length out0 + length ?xs"
      let ?d = "\<lparr>dec_in = (W # ws) @ rest, dec_out = out0\<rparr>"
      have c': "min (length ?xs) (scheme_count sel) = c"
        using less.prems(1) by (simp add: c_def)
      have "dec_word ?n ?d W = take c ?xs"
        by (simp add: dec_word_def word c')
      moreover have "length (dec_out ?d) < ?n" using c_pos c_le by auto
      moreover have "dec_in ?d = W # (ws @ rest)" by simp
      ultimately have "dec_run ?n ?d = dec_run ?n \<lparr>dec_in = ws @ rest, dec_out = out0 @ take c ?xs\<rparr>"
        using dec_run_Cons [of ?d ?n W "ws @ rest"] by simp
      also have "\<dots> = Inr \<lparr>dec_in = rest, dec_out = (out0 @ take c ?xs) @ drop c ?xs\<rparr>"
        using dec [of "out0 @ take c ?xs" rest] c_le by (simp add: add.assoc)
      finally show ?thesis by simp
    qed
    with run enc out s1 show ?thesis by auto
  qed
qed

section \<open>Simple8b: results\<close>

text \<open>The two entry points in terms of the runs of their loops.\<close>

lemma Simple8bEncode_run:
  "Simple8bEncode input inputLength =
     (case enc_run (enc_init input inputLength) of
        Inl e \<Rightarrow> Inl e
      | Inr s' \<Rightarrow> Inr (length (enc_out s'), enc_out s'))"
  by (simp add: Simple8bEncode_def)

lemma Simple8bDecode_run:
  "Simple8bDecode input uncompressedLength =
     (case dec_run uncompressedLength \<lparr>dec_in = input, dec_out = []\<rparr> of
        Inl e \<Rightarrow> Inl e
      | Inr s' \<Rightarrow> Inr (length (dec_out s'), dec_out s'))"
  by (simp add: Simple8bDecode_def)

text \<open>
  C1. For every sequence \<open>x\<close> of unsigned 64-bit integers that are all below \<open>2^60\<close>,
  of any length, \<open>Simple8bEncode\<close> succeeds, and \<open>Simple8bDecode\<close> applied to the words
  it wrote, with the length of \<open>x\<close> as output length, writes back exactly \<open>x\<close> and
  returns its length.
\<close>

theorem Simple8bDecode_Simple8bEncode:
  assumes "\<forall>v\<in>set x. v < 2 ^ 60"
  shows "\<exists>ws. Simple8bEncode x (length x) = Inr (length ws, ws)
              \<and> Simple8bDecode ws (length x) = Inr (length x, x)"
proof -
  let ?s = "enc_init x (length x)"
  have "ValuesRemaining ?s = length (enc_input ?s)" and "\<forall>v\<in>set (enc_input ?s). v < 2 ^ 60"
    using assms by (simp_all add: enc_init_def)
  then obtain s' ws where enc: "enc_run ?s = Inr s'" and out: "enc_out s' = enc_out ?s @ ws"
    and dec: "\<And>rest out0. dec_run (length out0 + length (enc_input ?s))
                               \<lparr>dec_in = ws @ rest, dec_out = out0\<rparr>
                             = Inr \<lparr>dec_in = rest, dec_out = out0 @ enc_input ?s\<rparr>"
    using roundtrip_run [of ?s] by blast
  from enc out have "Simple8bEncode x (length x) = Inr (length ws, ws)"
    by (simp add: Simple8bEncode_run enc_init_def)
  moreover from dec [of "[]" "[]"] have "Simple8bDecode ws (length x) = Inr (length x, x)"
    by (simp add: Simple8bDecode_run enc_init_def)
  ultimately show ?thesis by blast
qed

theorem Simple8bDecode_Simple8bEncode_witness:
  "(7::u64) < 2 ^ 60 \<and>
   (\<exists>ws. Simple8bEncode (replicate 241 7) 241 = Inr (length ws, ws)
         \<and> Simple8bDecode ws 241 = Inr (241, replicate 241 7))"
proof -
  have h: "\<forall>v\<in>set (replicate 241 (7::u64)). v < 2 ^ 60" by simp
  from Simple8bDecode_Simple8bEncode [OF h] show ?thesis by simp
qed

lemma enc_run_words:
  assumes "ValuesRemaining s \<le> length (enc_input s)"
  shows "\<exists>s' ws. enc_run s = Inr s' \<and> enc_out s' = enc_out s @ ws
           \<and> length ws \<le> ValuesRemaining s"
  using assms
proof (induction "ValuesRemaining s" arbitrary: s rule: less_induct)
  case less
  show ?case
  proof (cases "ValuesRemaining s = 0")
    case True
    with less.prems show ?thesis by (simp add: enc_run_unfold)
  next
    case False
    let ?s1 = "emit (first_fit s) s"
    have c: "0 < min (ValuesRemaining s) (scheme_count (first_fit s))"
      using False scheme_count_bounds [OF first_fit_less [of s]] by simp
    then have "ValuesRemaining ?s1 < ValuesRemaining s" by (simp add: emit_fields)
    moreover have "ValuesRemaining ?s1 \<le> length (enc_input ?s1)"
      using less.prems by (simp add: emit_fields)
    ultimately obtain s' ws where "enc_run ?s1 = Inr s'" and "enc_out s' = enc_out ?s1 @ ws"
      and "length ws \<le> ValuesRemaining ?s1"
      using less.hyps [of ?s1] by blast
    moreover have "enc_run s = enc_run ?s1"
      using False less.prems by (simp add: enc_run_unfold)
    ultimately show ?thesis using c by (auto simp: emit_fields)
  qed
qed

text \<open>
  C9. On every input sequence \<open>Simple8bEncode\<close> returns (the model's loops are total
  functions, their termination proved from the strict decrease of \<open>ValuesRemaining\<close>,
  and the result is not a fault), and the number of words it returns is the number of
  words it wrote and at most the input length.
\<close>

theorem Simple8bEncode_terminates:
  "\<exists>ws. Simple8bEncode x (length x) = Inr (length ws, ws) \<and> length ws \<le> length x"
proof -
  obtain s' ws where "enc_run (enc_init x (length x)) = Inr s'"
    and "enc_out s' = enc_out (enc_init x (length x)) @ ws"
    and "length ws \<le> ValuesRemaining (enc_init x (length x))"
    using enc_run_words [of "enc_init x (length x)"] by (auto simp: enc_init_def)
  then show ?thesis by (auto simp: Simple8bEncode_run enc_init_def)
qed

lemma if_fits_InlE:
  assumes "if_fits t a b = Inl e"
  obtains "t = Inl e" | "t = Inr True" "a = Inl e" | "t = Inr False" "b = Inl e"
  using assms by (auto simp: if_fits_def split: sum.splits if_splits)

lemma next_word_Inl: "next_word x = Inl e \<longleftrightarrow> x = Inl e"
  by (simp add: next_word_def split: sum.splits)

lemma TryPack_loop_fault: "TryPack_loop bound w n i \<noteq> Inl NoSchemeFits"
proof (induction bound w n i rule: TryPack_loop.induct)
  case (1 bound w n i)
  then show ?case by (subst TryPack_loop.simps) simp
qed

lemma TryPackFast_fault: "TryPackFast c w n \<noteq> Inl NoSchemeFits"
  by (simp add: TryPackFast_def TryPack_loop_fault)

lemma TryPackCareful_fault: "TryPackCareful c w n r \<noteq> Inl NoSchemeFits"
  by (simp add: TryPackCareful_def TryPack_loop_fault Let_def)

lemma WriteBits_loop_fault: "WriteBits_loop bound w i inp acc \<noteq> Inl NoSchemeFits"
proof (induction bound w i inp acc rule: WriteBits_loop.induct)
  case (1 bound w i inp acc)
  then show ?case by (subst WriteBits_loop.simps) (simp split: list.splits)
qed

lemma pack_run_fault: "pack_run sel c w s \<noteq> Inl NoSchemeFits"
  using WriteBits_loop_fault [of c w 0 "enc_input s" sel]
  by (auto simp: pack_run_def split: sum.splits prod.splits)

lemma zero_run_fault: "zero_run c w s \<noteq> Inl NoSchemeFits"
  by (simp add: zero_run_def)

lemma enc_fast_body_fault: "enc_fast_body s \<noteq> Inl NoSchemeFits"
proof
  assume "enc_fast_body s = Inl NoSchemeFits"
  then show False
    unfolding enc_fast_body_def next_word_Inl
    by (elim if_fits_InlE)
       (simp_all add: TryPackFast_fault pack_run_fault zero_run_fault TryPackFast_wide)
qed

lemma enc_careful_body_fault: "enc_careful_body s \<noteq> Inl NoSchemeFits"
proof
  assume "enc_careful_body s = Inl NoSchemeFits"
  then show False
    unfolding enc_careful_body_def next_word_Inl Let_def
    by (elim if_fits_InlE)
       (simp_all add: TryPackCareful_fault pack_run_fault zero_run_fault TryPackCareful_wide)
qed

lemma enc_fast_loop_fault: "enc_fast_loop s \<noteq> Inl NoSchemeFits"
proof (induction s rule: enc_fast_loop.induct)
  case (1 s)
  then show ?case
    using enc_fast_body_fault [of s]
    by (subst enc_fast_loop.simps) (auto split: sum.splits)
qed

lemma enc_careful_loop_fault: "enc_careful_loop s \<noteq> Inl NoSchemeFits"
proof (induction s rule: enc_careful_loop.induct)
  case (1 s)
  then show ?case
    using enc_careful_body_fault [of s]
    by (subst enc_careful_loop.simps) (auto split: sum.splits)
qed

text \<open>
  C8. The final \<open>else\<close> of either selection chain is never reached, whatever the state
  and the input: the last test of each chain, the fit test of the scheme with one value of
  60 bits (selector 15), accepts every position without reading it, so that neither loop
  body, and no call of \<open>Simple8bEncode\<close>, ends in \<open>NoSchemeFits\<close>.
\<close>

theorem final_else_unreachable:
  "TryPackFast 1 60 n = Inr True \<and> TryPackCareful 1 60 n r = Inr True
   \<and> enc_fast_body s \<noteq> Inl NoSchemeFits \<and> enc_careful_body s \<noteq> Inl NoSchemeFits
   \<and> Simple8bEncode x inputLength \<noteq> Inl NoSchemeFits"
proof -
  have "enc_run (enc_init x inputLength) \<noteq> Inl NoSchemeFits"
    using enc_fast_loop_fault [of "enc_init x inputLength"]
    by (auto simp: enc_run_def enc_careful_loop_fault split: sum.splits)
  then have "Simple8bEncode x inputLength \<noteq> Inl NoSchemeFits"
    by (auto simp: Simple8bEncode_def split: sum.splits)
  then show ?thesis
    by (simp add: TryPackFast_wide TryPackCareful_wide enc_fast_body_fault
        enc_careful_body_fault)
qed

text \<open>
  C7. For a width of 32 bits or more, \<open>TryPackFast\<close> and \<open>TryPackCareful\<close> answer
  true whatever the buffer holds, even an empty one. For a width below 32,
  \<open>TryPackFast\<close> answers true exactly when the first \<open>c\<close> values exist and are all
  below \<open>2^w\<close>, and on a buffer of at least \<open>c\<close> values its answer is that very
  condition. \<open>TryPackCareful\<close> is \<open>TryPackFast\<close> on the count clamped to
  \<open>maxIntegers\<close>.
\<close>

theorem TryPack_fit_predicate:
  "(32 \<le> w \<longrightarrow> TryPackFast c w n = Inr True \<and> TryPackCareful c w n m = Inr True)
   \<and> (w < 32 \<longrightarrow> (TryPackFast c w n = Inr True \<longleftrightarrow> c \<le> length n \<and> (\<forall>i<c. n ! i < 2 ^ w)))
   \<and> (w < 32 \<and> c \<le> length n \<longrightarrow> TryPackFast c w n = Inr (\<forall>i<c. n ! i < 2 ^ w))
   \<and> TryPackCareful c w n m = TryPackFast (min c m) w n"
proof (intro conjI impI)
  assume "32 \<le> w"
  then show "TryPackFast c w n = Inr True" and "TryPackCareful c w n m = Inr True"
    by (simp_all add: TryPackFast_wide TryPackCareful_wide)
next
  assume w: "w < 32"
  have "TryPackFast c w n = Inr True \<longleftrightarrow> (\<forall>j<c. j < length n \<and> n ! j < 2 ^ w)"
    using w by (simp add: TryPackFast_def TryPack_loop_True_iff)
  also have "\<dots> \<longleftrightarrow> c \<le> length n \<and> (\<forall>i<c. n ! i < 2 ^ w)"
  proof (intro iffI conjI allI impI)
    assume all: "\<forall>j<c. j < length n \<and> n ! j < 2 ^ w"
    show "c \<le> length n"
    proof (rule ccontr)
      assume "\<not> c \<le> length n"
      then have "length n < c" by simp
      with all have "length n < length n" by blast
      then show False by simp
    qed
    fix i assume "i < c"
    with all show "n ! i < 2 ^ w" by blast
  next
    fix j
    assume "c \<le> length n \<and> (\<forall>i<c. n ! i < 2 ^ w)" and "j < c"
    then show "j < length n" and "n ! j < 2 ^ w" by simp_all
  qed
  finally show "TryPackFast c w n = Inr True \<longleftrightarrow> c \<le> length n \<and> (\<forall>i<c. n ! i < 2 ^ w)" .
next
  assume "w < 32 \<and> c \<le> length n"
  then show "TryPackFast c w n = Inr (\<forall>i<c. n ! i < 2 ^ w)"
    by (simp add: TryPackFast_fits fits_def all_set_conv_all_nth)
next
  show "TryPackCareful c w n m = TryPackFast (min c m) w n"
    by (simp add: TryPackCareful_def TryPackFast_def min_def)
qed

theorem TryPack_fit_predicate_witness:
  "TryPackFast 1 60 [] = Inr True \<and> TryPackCareful 240 60 [] 0 = Inr True
   \<and> TryPackFast 1 4 [15] = Inr True \<and> TryPackFast 1 4 [16] = Inr False
   \<and> TryPackFast 3 4 [15] \<noteq> Inr True
   \<and> TryPackCareful 3 4 [15] 1 = Inr True"
proof -
  have a: "TryPackFast 1 60 [] = Inr True" "TryPackCareful 240 60 [] 0 = Inr True"
    using TryPack_fit_predicate [of 60 1 "[]" 0] TryPack_fit_predicate [of 60 240 "[]" 0]
    by simp_all
  have b: "TryPackFast 1 4 [15] = Inr True"
    using TryPack_fit_predicate [of 4 1 "[15]" 0] by simp
  have c: "TryPackFast 1 4 [16] = Inr False"
    using TryPack_fit_predicate [of 4 1 "[16]" 0] by simp
  have d: "TryPackFast 3 4 [15] \<noteq> Inr True"
    using TryPack_fit_predicate [of 4 3 "[15]" 0] by simp
  have e: "TryPackCareful 3 4 [15] 1 = Inr True"
    using TryPack_fit_predicate [of 4 3 "[15]" 1] b by simp
  from a b c d e show ?thesis by simp
qed

lemma dec_word_length:
  assumes "length (dec_out d) < n"
  shows "0 < length (dec_word n d w)" and "length (dec_word n d w) \<le> n - length (dec_out d)"
  using assms scheme_count_bounds [OF unat_selector_less [of w]]
  by (simp_all add: dec_word_def)

lemma dec_run_result:
  assumes "length (dec_out d) \<le> n"
  shows "(\<forall>d'. dec_run n d = Inr d' \<longrightarrow> length (dec_out d') = n)
       \<and> (\<forall>e. dec_run n d = Inl e \<longrightarrow> e = OutOfBounds \<and> length (dec_in d) < n - length (dec_out d))"
  using assms
proof (induction "n - length (dec_out d)" arbitrary: d rule: less_induct)
  case less
  show ?case
  proof (cases "length (dec_out d) < n")
    case False
    with less.prems have "dec_run n d = Inr d" and "length (dec_out d) = n"
      by (simp_all add: dec_run_done)
    then show ?thesis by simp
  next
    case True
    show ?thesis
    proof (cases "dec_in d")
      case Nil
      with True show ?thesis by (simp add: dec_run_Nil)
    next
      case (Cons w rest)
      let ?d' = "\<lparr>dec_in = rest, dec_out = dec_out d @ dec_word n d w\<rparr>"
      note len = dec_word_length [OF True, of w]
      have run: "dec_run n d = dec_run n ?d'" using True Cons by (rule dec_run_Cons)
      have out': "length (dec_out ?d') = length (dec_out d) + length (dec_word n d w)" by simp
      have "n - length (dec_out ?d') < n - length (dec_out d)"
        unfolding out' using True len by linarith
      moreover have "length (dec_out ?d') \<le> n" unfolding out' using True len by linarith
      ultimately have IH: "(\<forall>d'. dec_run n ?d' = Inr d' \<longrightarrow> length (dec_out d') = n)
         \<and> (\<forall>e. dec_run n ?d' = Inl e \<longrightarrow>
                e = OutOfBounds \<and> length (dec_in ?d') < n - length (dec_out ?d'))"
        by (rule less.hyps)
      show ?thesis
      proof (intro conjI allI impI)
        fix d' assume "dec_run n d = Inr d'"
        with run IH show "length (dec_out d') = n" by simp
      next
        fix e assume "dec_run n d = Inl e"
        with run have "dec_run n ?d' = Inl e" by simp
        with IH have e: "e = OutOfBounds" and "length (dec_in ?d') < n - length (dec_out ?d')"
          by blast+
        then have "length rest < n - (length (dec_out d) + length (dec_word n d w))"
          unfolding out' by simp
        with len have "Suc (length rest) < n - length (dec_out d)" by linarith
        with e show "e = OutOfBounds" and "length (dec_in d) < n - length (dec_out d)"
          using Cons by simp_all
      qed
    qed
  qed
qed

text \<open>
  The number of values a word stream holds: every word carries a selector in its top four
  bits, and the decoder's \<open>switch\<close> on it unpacks \<open>scheme_count\<close> of that selector
  values from the word (fewer only for the word on which the output becomes full).
\<close>

definition stream_capacity :: "u64 list \<Rightarrow> nat" where
  "stream_capacity ws = sum_list (map (\<lambda>w. scheme_count (unat (drop_bit 60 w))) ws)"

lemma stream_capacity_Nil [simp]: "stream_capacity [] = 0"
  by (simp add: stream_capacity_def)

lemma stream_capacity_Cons [simp]:
  "stream_capacity (w # ws) = scheme_count (unat (drop_bit 60 w)) + stream_capacity ws"
  by (simp add: stream_capacity_def)

lemma length_dec_word:
  "length (dec_word n d w) = min (n - length (dec_out d)) (scheme_count (unat (drop_bit 60 w)))"
  by (simp add: dec_word_def)

text \<open>
  The decoder returns exactly when the words still to be read hold the values still to be
  written.
\<close>

lemma dec_run_capacity:
  assumes "length (dec_out d) \<le> n"
  shows "(\<exists>d'. dec_run n d = Inr d') \<longleftrightarrow> n - length (dec_out d) \<le> stream_capacity (dec_in d)"
  using assms
proof (induction "n - length (dec_out d)" arbitrary: d rule: less_induct)
  case less
  show ?case
  proof (cases "length (dec_out d) < n")
    case False
    with less.prems have "dec_run n d = Inr d" and "n - length (dec_out d) = 0"
      by (simp_all add: dec_run_done)
    then show ?thesis by simp
  next
    case True
    show ?thesis
    proof (cases "dec_in d")
      case Nil
      with True show ?thesis by (simp add: dec_run_Nil)
    next
      case (Cons w rest)
      let ?d' = "\<lparr>dec_in = rest, dec_out = dec_out d @ dec_word n d w\<rparr>"
      define c where "c = scheme_count (unat (drop_bit 60 w))"
      define k where "k = length (dec_word n d w)"
      have k: "k = min (n - length (dec_out d)) c" by (simp add: k_def c_def length_dec_word)
      have c_pos: "0 < c"
        using scheme_count_bounds [OF unat_selector_less [of w]] by (simp add: c_def)
      have run: "dec_run n d = dec_run n ?d'" using True Cons by (rule dec_run_Cons)
      have out': "length (dec_out ?d') = length (dec_out d) + k" by (simp add: k_def)
      have "n - length (dec_out ?d') < n - length (dec_out d)"
        unfolding out' k using True c_pos by linarith
      moreover have "length (dec_out ?d') \<le> n" unfolding out' k using True by linarith
      ultimately have "(\<exists>d'. dec_run n ?d' = Inr d')
          \<longleftrightarrow> n - length (dec_out ?d') \<le> stream_capacity (dec_in ?d')"
        by (rule less.hyps)
      then have "(\<exists>d'. dec_run n d = Inr d')
          \<longleftrightarrow> n - (length (dec_out d) + k) \<le> stream_capacity rest"
        unfolding out' run by simp
      also have "\<dots> \<longleftrightarrow> n - length (dec_out d) \<le> c + stream_capacity rest"
        unfolding k using True by (cases "n - length (dec_out d) \<le> c") (simp_all, linarith)
      finally show ?thesis by (simp add: Cons c_def)
    qed
  qed
qed

text \<open>
  C6. \<open>Simple8bDecode\<close> is a total function of the word stream and the output length
  (both of its loops terminate, whatever selectors the words carry). Whenever it returns,
  it has written exactly \<open>n\<close> values and returns \<open>n\<close>; the only way it fails is by
  reading past the end of the stream, which needs a stream of fewer than \<open>n\<close> words; so
  on a stream of at least \<open>n\<close> words it returns. More precisely, a stream contains enough
  words exactly when its words hold at least \<open>n\<close> values under their selectors
  (\<open>n \<le> stream_capacity ws\<close>): on every such stream the decoder returns \<open>n\<close>, having
  written exactly \<open>n\<close> values, and on every other stream it reads past the end. Its
  result depends on nothing but the words and \<open>n\<close>.
\<close>

theorem Simple8bDecode_writes_outputLength:
  "(\<forall>k ys. Simple8bDecode ws n = Inr (k, ys) \<longrightarrow> k = n \<and> length ys = n)
   \<and> (\<forall>e. Simple8bDecode ws n = Inl e \<longrightarrow> e = OutOfBounds \<and> length ws < n)
   \<and> (n \<le> length ws \<longrightarrow> (\<exists>ys. Simple8bDecode ws n = Inr (n, ys) \<and> length ys = n))
   \<and> (n \<le> stream_capacity ws \<longrightarrow> (\<exists>ys. Simple8bDecode ws n = Inr (n, ys) \<and> length ys = n))
   \<and> (stream_capacity ws < n \<longrightarrow> Simple8bDecode ws n = Inl OutOfBounds)"
proof -
  let ?d = "\<lparr>dec_in = ws, dec_out = []\<rparr>"
  have res: "(\<forall>d'. dec_run n ?d = Inr d' \<longrightarrow> length (dec_out d') = n)
       \<and> (\<forall>e. dec_run n ?d = Inl e \<longrightarrow> e = OutOfBounds \<and> length (dec_in ?d) < n - length (dec_out ?d))"
    by (rule dec_run_result) simp
  have cap: "(\<exists>d'. dec_run n ?d = Inr d') \<longleftrightarrow> n \<le> stream_capacity ws"
    using dec_run_capacity [of ?d n] by simp
  have a: "\<forall>k ys. Simple8bDecode ws n = Inr (k, ys) \<longrightarrow> k = n \<and> length ys = n"
    using res by (auto simp: Simple8bDecode_def split: sum.splits)
  have b: "\<forall>e. Simple8bDecode ws n = Inl e \<longrightarrow> e = OutOfBounds \<and> length ws < n"
    using res by (auto simp: Simple8bDecode_def split: sum.splits)
  have c: "n \<le> length ws \<longrightarrow> (\<exists>ys. Simple8bDecode ws n = Inr (n, ys) \<and> length ys = n)"
  proof
    assume "n \<le> length ws"
    with b have "\<forall>e. Simple8bDecode ws n \<noteq> Inl e" by auto
    then obtain k ys where "Simple8bDecode ws n = Inr (k, ys)"
      by (cases "Simple8bDecode ws n") auto
    with a show "\<exists>ys. Simple8bDecode ws n = Inr (n, ys) \<and> length ys = n" by auto
  qed
  have d: "n \<le> stream_capacity ws \<longrightarrow> (\<exists>ys. Simple8bDecode ws n = Inr (n, ys) \<and> length ys = n)"
  proof
    assume "n \<le> stream_capacity ws"
    with cap obtain d' where "dec_run n ?d = Inr d'" by blast
    then have "Simple8bDecode ws n = Inr (length (dec_out d'), dec_out d')"
      by (simp add: Simple8bDecode_def)
    with a show "\<exists>ys. Simple8bDecode ws n = Inr (n, ys) \<and> length ys = n" by auto
  qed
  have e: "stream_capacity ws < n \<longrightarrow> Simple8bDecode ws n = Inl OutOfBounds"
  proof
    assume "stream_capacity ws < n"
    with cap have no: "\<not> (\<exists>d'. dec_run n ?d = Inr d')" by simp
    then obtain f where f: "dec_run n ?d = Inl f" by (cases "dec_run n ?d") auto
    with res have "f = OutOfBounds" by blast
    with f show "Simple8bDecode ws n = Inl OutOfBounds" by (simp add: Simple8bDecode_def)
  qed
  from a b c d e show ?thesis by blast
qed

lemma unpack_word_zero_width: "unpack_word c 0 w = replicate c 0"
  by (simp add: unpack_word_def map_replicate_const)

lemma Simple8bDecode_zero_word: "Simple8bDecode [0] 240 = Inr (240, replicate 240 0)"
proof -
  let ?d = "\<lparr>dec_in = [0::u64], dec_out = []\<rparr>"
  have "dec_word 240 ?d 0 = replicate 240 0"
    by (simp add: dec_word_def scheme_count_def scheme_width_def unpack_word_zero_width)
  moreover have "dec_run 240 ?d = dec_run 240 \<lparr>dec_in = [], dec_out = dec_out ?d @ dec_word 240 ?d 0\<rparr>"
    by (rule dec_run_Cons) simp_all
  ultimately have "dec_run 240 ?d = Inr \<lparr>dec_in = [], dec_out = replicate 240 0\<rparr>"
    by (simp add: dec_run_done)
  then show ?thesis by (simp add: Simple8bDecode_def)
qed

lemma Simple8bDecode_one_of_zero_word: "Simple8bDecode [0] 1 = Inr (1, [0])"
proof -
  let ?d = "\<lparr>dec_in = [0::u64], dec_out = []\<rparr>"
  have "dec_word 1 ?d 0 = [0]"
    by (simp add: dec_word_def scheme_count_def scheme_width_def unpack_word_def)
  moreover have "dec_run 1 ?d = dec_run 1 \<lparr>dec_in = [], dec_out = dec_out ?d @ dec_word 1 ?d 0\<rparr>"
    by (rule dec_run_Cons) simp_all
  ultimately have "dec_run 1 ?d = Inr \<lparr>dec_in = [], dec_out = [0]\<rparr>"
    by (simp add: dec_run_done)
  then show ?thesis by (simp add: Simple8bDecode_def)
qed

theorem Simple8bDecode_writes_outputLength_witness:
  "stream_capacity [0] = 240 \<and> 240 \<le> stream_capacity [0]
   \<and> Simple8bDecode [0] 240 = Inr (240, replicate 240 0) \<and> length (replicate 240 (0::u64)) = 240
   \<and> (1::nat) \<le> length [0::u64] \<and> Simple8bDecode [0] 1 = Inr (1, [0])
   \<and> stream_capacity [0] < 241 \<and> Simple8bDecode [0] 241 = Inl OutOfBounds
   \<and> length [0::u64] < 241
   \<and> Simple8bDecode [] 1 = Inl OutOfBounds \<and> length ([]::u64 list) < 1"
proof -
  have cap: "stream_capacity [0] = 240" by (simp add: scheme_count_def)
  have far: "Simple8bDecode [0] 241 = Inl OutOfBounds"
    using Simple8bDecode_writes_outputLength [of "[0]" 241] cap by simp
  have full: "\<exists>ys. Simple8bDecode [0] 240 = Inr (240, ys) \<and> length ys = 240"
    using Simple8bDecode_writes_outputLength [of "[0]" 240] cap by simp
  have one: "\<exists>ys. Simple8bDecode [0] 1 = Inr (1, ys) \<and> length ys = 1"
    using Simple8bDecode_writes_outputLength [of "[0]" 1] by simp
  have none: "Simple8bDecode [] 1 = Inl OutOfBounds"
    using Simple8bDecode_writes_outputLength [of "[]" 1] by simp
  from cap far full one none Simple8bDecode_zero_word Simple8bDecode_one_of_zero_word
  show ?thesis by simp
qed

lemma scheme_fits_cong:
  "enc_input s = enc_input t \<Longrightarrow> ValuesRemaining s = ValuesRemaining t
   \<Longrightarrow> scheme_fits sel s = scheme_fits sel t"
  by (simp add: scheme_fits_def)

lemma first_fit_cong:
  "enc_input s = enc_input t \<Longrightarrow> ValuesRemaining s = ValuesRemaining t
   \<Longrightarrow> first_fit s = first_fit t"
  by (simp add: first_fit_def scheme_fits_cong [of s t])

lemma enc_run_same_words:
  assumes "enc_input s = enc_input t" and "ValuesRemaining s = ValuesRemaining t"
    and "ValuesRemaining s \<le> length (enc_input s)"
  shows "\<exists>s' t' ws. enc_run s = Inr s' \<and> enc_run t = Inr t'
           \<and> enc_out s' = enc_out s @ ws \<and> enc_out t' = enc_out t @ ws"
  using assms
proof (induction "ValuesRemaining s" arbitrary: s t rule: less_induct)
  case less
  show ?case
  proof (cases "ValuesRemaining s = 0")
    case True
    with less.prems show ?thesis by (simp add: enc_run_unfold)
  next
    case False
    define sel where "sel = first_fit s"
    have sel_t: "first_fit t = sel"
      using less.prems by (simp add: sel_def first_fit_cong [of s t])
    let ?s1 = "emit sel s" and ?t1 = "emit sel t"
    have c: "0 < min (ValuesRemaining s) (scheme_count sel)"
      using False scheme_count_bounds [OF first_fit_less [of s]] by (simp add: sel_def)
    then have "ValuesRemaining ?s1 < ValuesRemaining s" by (simp add: emit_fields)
    moreover have "enc_input ?s1 = enc_input ?t1" "ValuesRemaining ?s1 = ValuesRemaining ?t1"
      "ValuesRemaining ?s1 \<le> length (enc_input ?s1)"
      using less.prems by (simp_all add: emit_fields)
    ultimately obtain s' t' ws where run1: "enc_run ?s1 = Inr s'" "enc_run ?t1 = Inr t'"
      and out1: "enc_out s' = enc_out ?s1 @ ws" "enc_out t' = enc_out ?t1 @ ws"
      using less.hyps [of ?s1 ?t1] by blast
    have "enc_run s = enc_run ?s1" "enc_run t = enc_run ?t1"
      using False less.prems sel_t by (simp_all add: enc_run_unfold sel_def)
    with run1 out1 less.prems show ?thesis by (simp add: emit_fields)
  qed
qed

lemma Simple8bEncode_from_state:
  assumes "ValuesRemaining s = length (enc_input s)"
  shows "\<exists>s' ws. enc_run s = Inr s' \<and> enc_out s' = enc_out s @ ws
           \<and> Simple8bEncode (enc_input s) (length (enc_input s)) = Inr (length ws, ws)"
proof -
  let ?t = "enc_init (enc_input s) (length (enc_input s))"
  have "enc_input s = enc_input ?t" "ValuesRemaining s = ValuesRemaining ?t"
    "ValuesRemaining s \<le> length (enc_input s)"
    using assms by (simp_all add: enc_init_def)
  then obtain s' t' ws where "enc_run s = Inr s'" "enc_run ?t = Inr t'"
    "enc_out s' = enc_out s @ ws" "enc_out t' = enc_out ?t @ ws"
    using enc_run_same_words [of s ?t] by blast
  then show ?thesis by (auto simp: Simple8bEncode_def enc_init_def)
qed

lemma fits_zero_replicate: "fits 0 (replicate k 0)"
  by (simp add: fits_zero_iff)

lemma Simple8bEncode_zeros: "Simple8bEncode (replicate 240 0) 240 = Inr (1, [0])"
proof -
  define s where "s = enc_init (replicate 240 0) 240"
  have fields: "enc_input s = replicate 240 0" "ValuesRemaining s = 240" "enc_out s = []"
    by (simp_all add: s_def enc_init_def)
  have "scheme_fits 0 s"
    by (simp add: scheme_fits_def scheme_count_def scheme_width_def fields fits_zero_replicate)
  then have sel: "first_fit s = 0" by (simp add: first_fit_def)
  have "enc_run s = enc_run (emit 0 s)"
    using enc_run_unfold [of s] by (simp add: sel fields)
  also have "\<dots> = Inr (emit 0 s)"
    using enc_run_unfold [of "emit 0 s"] by (simp add: emit_fields fields scheme_count_def)
  finally have "enc_run s = Inr (emit 0 s)" .
  moreover have "enc_out (emit 0 s) = [0]"
    by (simp add: emit_fields fields scheme_count_def scheme_width_def pack_bits_zero
        fits_zero_replicate)
  ultimately show ?thesis by (simp add: Simple8bEncode_def s_def [symmetric])
qed

lemma first_fit_one:
  assumes "240 \<le> ValuesRemaining s"
    and "\<forall>v\<in>set (take 120 (enc_input s)). v = 0"
    and "\<exists>v\<in>set (take 120 (drop 120 (enc_input s))). v \<noteq> 0"
  shows "first_fit s = 1"
proof -
  have one: "scheme_fits (Suc 0) s"
    using assms(1,2) by (simp add: scheme_fits_def scheme_count_def scheme_width_def fits_zero_iff)
  have "\<not> fits 0 (take 120 (drop 120 (enc_input s)))"
    using assms(3) by (simp add: fits_zero_iff)
  then have "\<not> scheme_fits 0 s" using assms(1) by (simp add: scheme_fits_0_split)
  with one show ?thesis by (simp add: first_fit_def)
qed

lemma emit_one:
  assumes "240 \<le> ValuesRemaining s" and "\<forall>v\<in>set (take 120 (enc_input s)). v = 0"
  shows "emit 1 s = s\<lparr>NumberOfValuesCoded := 120, enc_out := enc_out s @ [push_bit 60 1],
                      enc_input := drop 120 (enc_input s),
                      ValuesRemaining := ValuesRemaining s - 120\<rparr>"
  using assms
  by (simp add: emit_def scheme_count_def scheme_width_def pack_bits_zero fits_zero_iff)

lemma Simple8bDecode_selector_one:
  "Simple8bDecode [push_bit 60 1] 120 = Inr (120, replicate 120 0)"
proof -
  let ?w = "push_bit 60 1 :: u64"
  let ?d = "\<lparr>dec_in = [?w], dec_out = []\<rparr>"
  have sel: "unat (drop_bit 60 ?w) = 1" by simp
  have "dec_word 120 ?d ?w = replicate 120 0"
    unfolding dec_word_def sel
    by (simp add: scheme_count_def scheme_width_def unpack_word_zero_width)
  moreover have "dec_run 120 ?d = dec_run 120 \<lparr>dec_in = [], dec_out = dec_out ?d @ dec_word 120 ?d ?w\<rparr>"
    by (rule dec_run_Cons) simp_all
  ultimately have "dec_run 120 ?d = Inr \<lparr>dec_in = [], dec_out = replicate 120 0\<rparr>"
    by (simp add: dec_run_done)
  then show ?thesis by (simp add: Simple8bDecode_def)
qed

text \<open>
  C4. \<open>Simple8bEncode\<close> on 240 zeros writes the single word 0 and returns 1, and
  \<open>Simple8bDecode\<close> of that word with output length 240 yields 240 zeros. Whenever the
  first loop runs (at least 240 values remain) on a position whose next 120 values are all
  zero while the 120 after them are not, its body writes the one word \<open>2^60\<close>, leaves 120
  values coded and goes on behind them; at the start of an input this reads: the encoding
  of 120 zeros followed by \<open>ys\<close> is that word followed by the encoding of \<open>ys\<close>. The
  word \<open>2^60\<close> carries selector 1 and decodes to 120 zeros.
\<close>

theorem zero_run_compaction:
  "Simple8bEncode (replicate 240 0) 240 = Inr (1, [0])
   \<and> Simple8bDecode [0] 240 = Inr (240, replicate 240 0)
   \<and> (240 \<le> ValuesRemaining s \<and> ValuesRemaining s \<le> length (enc_input s)
        \<and> (\<forall>v\<in>set (take 120 (enc_input s)). v = 0)
        \<and> (\<exists>v\<in>set (take 120 (drop 120 (enc_input s))). v \<noteq> 0)
      \<longrightarrow> enc_fast_body s =
            Inr (s\<lparr>NumberOfValuesCoded := 120, enc_out := enc_out s @ [push_bit 60 1],
                    enc_input := drop 120 (enc_input s),
                    ValuesRemaining := ValuesRemaining s - 120\<rparr>))
   \<and> (120 \<le> length ys \<and> (\<exists>v\<in>set (take 120 ys). v \<noteq> 0)
      \<longrightarrow> (\<exists>ws. Simple8bEncode ys (length ys) = Inr (length ws, ws)
               \<and> Simple8bEncode (replicate 120 0 @ ys) (120 + length ys)
                   = Inr (Suc (length ws), push_bit 60 1 # ws)))
   \<and> GetSelectorNum [push_bit 60 1] = Inr 1
   \<and> Simple8bDecode [push_bit 60 1] 120 = Inr (120, replicate 120 0)"
proof (intro conjI impI)
  show "Simple8bEncode (replicate 240 0) 240 = Inr (1, [0])" by (rule Simple8bEncode_zeros)
  show "Simple8bDecode [0] 240 = Inr (240, replicate 240 0)" by (rule Simple8bDecode_zero_word)
  show "GetSelectorNum [push_bit 60 1] = Inr 1" by (simp add: GetSelectorNum_Cons)
  show "Simple8bDecode [push_bit 60 1] 120 = Inr (120, replicate 120 0)"
    by (rule Simple8bDecode_selector_one)
next
  assume a: "240 \<le> ValuesRemaining s \<and> ValuesRemaining s \<le> length (enc_input s)
        \<and> (\<forall>v\<in>set (take 120 (enc_input s)). v = 0)
        \<and> (\<exists>v\<in>set (take 120 (drop 120 (enc_input s))). v \<noteq> 0)"
  then have "enc_fast_body s = Inr (emit (first_fit s) s)" by (simp add: enc_fast_body_eq)
  moreover from a have "first_fit s = 1" by (intro first_fit_one) blast+
  moreover from a have "emit 1 s = s\<lparr>NumberOfValuesCoded := 120,
                    enc_out := enc_out s @ [push_bit 60 1],
                    enc_input := drop 120 (enc_input s),
                    ValuesRemaining := ValuesRemaining s - 120\<rparr>"
    by (intro emit_one) blast+
  ultimately show "enc_fast_body s =
            Inr (s\<lparr>NumberOfValuesCoded := 120, enc_out := enc_out s @ [push_bit 60 1],
                    enc_input := drop 120 (enc_input s),
                    ValuesRemaining := ValuesRemaining s - 120\<rparr>)"
    by (simp only:)
next
  assume a: "120 \<le> length ys \<and> (\<exists>v\<in>set (take 120 ys). v \<noteq> 0)"
  define s0 where "s0 = enc_init (replicate 120 0 @ ys) (120 + length ys)"
  define s1 where "s1 = s0\<lparr>NumberOfValuesCoded := 120, enc_out := enc_out s0 @ [push_bit 60 1],
                      enc_input := drop 120 (enc_input s0),
                      ValuesRemaining := ValuesRemaining s0 - 120\<rparr>"
  have f0: "enc_input s0 = replicate 120 0 @ ys" "ValuesRemaining s0 = 120 + length ys"
    "enc_out s0 = []"
    by (simp_all add: s0_def enc_init_def)
  have f1: "enc_input s1 = ys" "ValuesRemaining s1 = length ys" "enc_out s1 = [push_bit 60 1]"
    by (simp_all add: s1_def f0)
  have pre: "240 \<le> ValuesRemaining s0" "\<forall>v\<in>set (take 120 (enc_input s0)). v = 0"
    "\<exists>v\<in>set (take 120 (drop 120 (enc_input s0))). v \<noteq> 0"
    using a by (simp_all add: f0)
  have "first_fit s0 = 1" using pre by (rule first_fit_one)
  moreover have "emit 1 s0 = s1" unfolding s1_def using pre(1,2) by (rule emit_one)
  moreover have "enc_run s0 = enc_run (emit (first_fit s0) s0)"
    using enc_run_unfold [of s0] pre(1) by (simp add: f0)
  ultimately have run: "enc_run s0 = enc_run s1" by simp
  have "ValuesRemaining s1 = length (enc_input s1)" by (simp add: f1)
  then obtain s' ws where "enc_run s1 = Inr s'" "enc_out s' = enc_out s1 @ ws"
    "Simple8bEncode (enc_input s1) (length (enc_input s1)) = Inr (length ws, ws)"
    using Simple8bEncode_from_state [of s1] by blast
  with run have "Simple8bEncode ys (length ys) = Inr (length ws, ws)"
    and "Simple8bEncode (replicate 120 0 @ ys) (120 + length ys)
                   = Inr (Suc (length ws), push_bit 60 1 # ws)"
    by (simp_all add: f1 Simple8bEncode_def [of "replicate 120 0 @ ys"] s0_def [symmetric])
  then show "\<exists>ws. Simple8bEncode ys (length ys) = Inr (length ws, ws)
               \<and> Simple8bEncode (replicate 120 0 @ ys) (120 + length ys)
                   = Inr (Suc (length ws), push_bit 60 1 # ws)"
    by blast
qed

theorem zero_run_compaction_witness:
  "(\<exists>ws. Simple8bEncode (replicate 120 1) 120 = Inr (length ws, ws)
         \<and> Simple8bEncode (replicate 120 0 @ replicate 120 1) 240
              = Inr (Suc (length ws), push_bit 60 1 # ws))
   \<and> enc_fast_body (enc_init (replicate 120 0 @ replicate 120 1) 240)
       = Inr \<lparr>enc_input = replicate 120 1, enc_out = [push_bit 60 1],
              ValuesRemaining = 120, NumberOfValuesCoded = 120\<rparr>"
  using zero_run_compaction [of "enc_init (replicate 120 0 @ replicate 120 1) 240"
      "replicate 120 1"]
  by (simp add: enc_init_def)

section \<open>Simple8b: where the input cursor stops\<close>

text \<open>
  \<open>enc_reaches s t\<close>: a run of the encoder's loops that is in state \<open>s\<close> at the head of
  an iteration is in state \<open>t\<close> at the head of the same or a later iteration. An iteration
  is one of the first loop while at least 240 values remain, and one of the second loop
  after that.
\<close>

inductive enc_reaches :: "enc_state \<Rightarrow> enc_state \<Rightarrow> bool" where
  enc_reaches_here: "enc_reaches s s"
| enc_reaches_fast:
    "240 \<le> ValuesRemaining s \<Longrightarrow> enc_fast_body s = Inr s1 \<Longrightarrow> enc_reaches s1 t
     \<Longrightarrow> enc_reaches s t"
| enc_reaches_careful:
    "ValuesRemaining s < 240 \<Longrightarrow> 0 < ValuesRemaining s \<Longrightarrow> enc_careful_body s = Inr s1
     \<Longrightarrow> enc_reaches s1 t \<Longrightarrow> enc_reaches s t"

lemma enc_reaches_run: "enc_reaches s t \<Longrightarrow> enc_run s = enc_run t"
proof (induction rule: enc_reaches.induct)
  case (enc_reaches_here s)
  show ?case ..
next
  case (enc_reaches_fast s s1 t)
  have "enc_fast_loop s = enc_fast_loop s1"
    using enc_reaches_fast(1,2) by (subst enc_fast_loop.simps) simp
  then have "enc_run s = enc_run s1" by (simp only: enc_run_def)
  then show ?case using enc_reaches_fast.IH by (rule trans)
next
  case (enc_reaches_careful s s1 t)
  from enc_careful_body_coded [OF enc_reaches_careful(3,2)] enc_reaches_careful(1)
  have "ValuesRemaining s1 < 240" by simp
  then have "enc_run s1 = enc_careful_loop s1" by (rule enc_careful_loop_small)
  moreover have "enc_run s = enc_careful_loop s"
    using enc_reaches_careful(1) by (rule enc_careful_loop_small)
  moreover have "enc_careful_loop s = enc_careful_loop s1"
    using enc_reaches_careful(2,3) by (subst enc_careful_loop.simps) simp
  ultimately have "enc_run s = enc_run s1" by (simp only:)
  then show ?case using enc_reaches_careful.IH by (rule trans)
qed

lemma enc_reaches_emit:
  assumes "0 < ValuesRemaining s" and "ValuesRemaining s \<le> length (enc_input s)"
    and "enc_reaches (emit (first_fit s) s) t"
  shows "enc_reaches s t"
proof (cases "240 \<le> ValuesRemaining s")
  case True
  then have "enc_fast_body s = Inr (emit (first_fit s) s)"
    using assms(2) by (rule enc_fast_body_eq)
  with True show ?thesis using assms(3) by (rule enc_reaches_fast)
next
  case False
  then have small: "ValuesRemaining s < 240" by simp
  have "enc_careful_body s = Inr (emit (first_fit s) s)"
    using assms(2) by (rule enc_careful_body_eq)
  with small assms(1) show ?thesis using assms(3) by (rule enc_reaches_careful)
qed

lemma big_value_unfit:
  assumes "sel < 15" and "(2::u64) ^ 30 \<le> v"
  shows "\<not> v < push_bit (scheme_width sel) 1"
proof
  assume "v < push_bit (scheme_width sel) 1"
  with assms(2) have lt: "(2::u64) ^ 30 < push_bit (scheme_width sel) 1" by (rule le_less_trans)
  from assms(1) have "sel < 16" by simp
  then show False
    by (rule less_16_cases) (use assms(1) lt in \<open>simp_all add: scheme_width_def\<close>)
qed

lemma big_value_not_fits:
  assumes "sel < 15" and "(2::u64) ^ 30 \<le> v" and "v \<in> set vs"
  shows "\<not> fits (scheme_width sel) vs"
  using big_value_unfit [OF assms(1,2)] assms(3) by (auto simp: fits_def)

lemma first_fit_count_stops:
  assumes inp: "enc_input s = pre @ v # post" and len: "ValuesRemaining s = length (enc_input s)"
    and v: "(2::u64) ^ 30 \<le> v" and pre: "pre \<noteq> []"
  shows "min (ValuesRemaining s) (scheme_count (first_fit s)) \<le> length pre"
proof (rule ccontr)
  let ?sel = "first_fit s"
  let ?c = "min (ValuesRemaining s) (scheme_count ?sel)"
  assume "\<not> ?c \<le> length pre"
  then have c: "length pre < ?c" by (simp only: not_le)
  have "?sel \<noteq> 15"
  proof
    assume "?sel = 15"
    then have "?c \<le> 1" by (simp add: scheme_count_def)
    moreover from pre have "1 \<le> length pre" by (cases pre) simp_all
    ultimately show False using c by linarith
  qed
  with first_fit_less [of s] have sel: "?sel < 15" by simp
  then have "scheme_width ?sel < 32" by (rule scheme_width_small)
  with first_fit_fits [of s] have fit: "fits (scheme_width ?sel) (take ?c (enc_input s))"
    by (simp add: scheme_fits_def)
  have "take ?c (enc_input s) = pre @ take (?c - length pre) (v # post)"
    using c unfolding inp by (simp only: take_append take_all [OF less_imp_le])
  moreover have "0 < ?c - length pre" using c by linarith
  ultimately have "v \<in> set (take ?c (enc_input s))"
    by (cases "?c - length pre") simp_all
  with big_value_not_fits [OF sel v] fit show False by blast
qed

lemma cursor_arrives:
  assumes "enc_input s = pre @ v # post" and "ValuesRemaining s = length (enc_input s)"
    and "(2::u64) ^ 30 \<le> v"
  shows "\<exists>t ws. enc_reaches s t \<and> enc_input t = v # post
           \<and> ValuesRemaining t = Suc (length post) \<and> enc_out t = enc_out s @ ws"
  using assms
proof (induction "length pre" arbitrary: s pre rule: less_induct)
  case less
  show ?case
  proof (cases "pre = []")
    case True
    with less.prems have "enc_reaches s s" "enc_input s = v # post"
      "ValuesRemaining s = Suc (length post)" "enc_out s = enc_out s @ []"
      by (simp_all add: enc_reaches_here)
    then show ?thesis by blast
  next
    case False
    define c where "c = min (ValuesRemaining s) (scheme_count (first_fit s))"
    let ?s1 = "emit (first_fit s) s"
    have c_le: "c \<le> length pre"
      unfolding c_def using less.prems(1,2,3) False by (rule first_fit_count_stops)
    have c_pos: "0 < c"
      using less.prems(1,2) scheme_count_bounds [OF first_fit_less [of s]]
      by (simp add: c_def)
    have "drop c (enc_input s) = drop c pre @ v # post"
      using c_le by (simp add: less.prems(1))
    then have s1: "enc_input ?s1 = drop c pre @ v # post"
      by (simp only: emit_fields c_def)
    have s1': "ValuesRemaining ?s1 = length (enc_input ?s1)"
      unfolding emit_fields c_def [symmetric] using less.prems(2) by simp
    have "length (drop c pre) < length pre" using c_pos False by simp
    then obtain t ws where t: "enc_reaches ?s1 t" "enc_input t = v # post"
      "ValuesRemaining t = Suc (length post)" "enc_out t = enc_out ?s1 @ ws"
      using less.hyps [OF _ s1 s1' less.prems(3)] by blast
    have "0 < ValuesRemaining s" "ValuesRemaining s \<le> length (enc_input s)"
      using less.prems(1,2) by simp_all
    then have "enc_reaches s t" using t(1) by (rule enc_reaches_emit)
    moreover have "\<exists>ws'. enc_out t = enc_out s @ ws'"
      using t(4) by (simp add: emit_fields)
    ultimately show ?thesis using t(2,3) by blast
  qed
qed

lemma first_fit_big_value:
  assumes "enc_input s = v # post" and "0 < ValuesRemaining s" and "(2::u64) ^ 30 \<le> v"
  shows "first_fit s = 15"
proof -
  have no: "\<not> scheme_fits sel s" if "sel < 15" for sel
  proof -
    from that have "sel < 16" by simp
    then have "0 < min (ValuesRemaining s) (scheme_count sel)"
      using assms(2) scheme_count_bounds [of sel] by simp
    then have "v \<in> set (take (min (ValuesRemaining s) (scheme_count sel)) (enc_input s))"
      unfolding assms(1) by (cases "min (ValuesRemaining s) (scheme_count sel)") simp_all
    with big_value_not_fits [OF that assms(3)] scheme_width_small [OF that]
    show ?thesis by (auto simp: scheme_fits_def)
  qed
  have "\<not> scheme_fits 0 s" "\<not> scheme_fits 1 s" "\<not> scheme_fits 2 s" "\<not> scheme_fits 3 s"
    "\<not> scheme_fits 4 s" "\<not> scheme_fits 5 s" "\<not> scheme_fits 6 s" "\<not> scheme_fits 7 s"
    "\<not> scheme_fits 8 s" "\<not> scheme_fits 9 s" "\<not> scheme_fits 10 s" "\<not> scheme_fits 11 s"
    "\<not> scheme_fits 12 s" "\<not> scheme_fits 13 s" "\<not> scheme_fits 14 s"
    by (rule no, simp)+
  then show ?thesis by (simp add: first_fit_def)
qed

lemma emit_big_value:
  assumes "enc_input s = v # post" and "ValuesRemaining s = Suc (length post)"
  shows "emit 15 s = s\<lparr>NumberOfValuesCoded := 1, enc_out := enc_out s @ [push_bit 60 15 OR v],
                       enc_input := post, ValuesRemaining := length post\<rparr>"
  using assms by (simp add: emit_def scheme_count_def scheme_width_def)

lemma selector_15_word:
  assumes "v < (2::u64) ^ 60"
  shows "GetSelectorNum [push_bit 60 15 OR v] = Inr 15"
    and "Simple8bDecode [push_bit 60 15 OR v] 1 = Inr (1, [v])"
proof -
  let ?W = "push_bit 60 15 OR v"
  have fit: "fits (scheme_width 15) (take 1 [v])" using assms by (simp add: fits_def scheme_width_def)
  have W: "push_bit (60 - scheme_width 15 * 1) (pack_bits (scheme_width 15) (of_nat 15) (take 1 [v])) = ?W"
    by (simp add: scheme_width_def)
  have sel: "unat (drop_bit 60 ?W) = 15"
    using emit_word_roundtrip(1) [of 15 1 "[v]", OF _ fit] unfolding W
    by (simp add: scheme_count_def)
  have vals: "unpack_word 1 (scheme_width 15) ?W = take 1 [v]"
    using emit_word_roundtrip(2) [of 15 1 "[v]", OF _ fit] unfolding W
    by (simp add: scheme_count_def)
  show "GetSelectorNum [?W] = Inr 15" by (simp only: GetSelectorNum_Cons sel)
  let ?d = "\<lparr>dec_in = [?W], dec_out = []\<rparr>"
  have "dec_word 1 ?d ?W = [v]"
    unfolding dec_word_def sel using vals by (simp add: scheme_count_def)
  moreover have "dec_run 1 ?d = dec_run 1 \<lparr>dec_in = [], dec_out = dec_out ?d @ dec_word 1 ?d ?W\<rparr>"
    by (rule dec_run_Cons) simp_all
  ultimately have "dec_run 1 ?d = Inr \<lparr>dec_in = [], dec_out = [v]\<rparr>"
    by (simp add: dec_run_done)
  then show "Simple8bDecode [?W] 1 = Inr (1, [v])" by (simp add: Simple8bDecode_def)
qed

text \<open>
  C5. Take any input \<open>pre @ v # post\<close> in which \<open>2^30 \<le> v < 2^60\<close>, whatever the
  other values are. The run of \<open>Simple8bEncode\<close> on it reaches the head of an iteration
  with the input cursor exactly at \<open>v\<close>; that iteration codes one value and writes the
  word \<open>15 * 2^60 OR v\<close>, whose selector is 15 and which decodes to the single value
  \<open>v\<close>; and the run goes on behind \<open>v\<close> as a run on \<open>post\<close> alone would: the output
  is the words written before, this word, and the encoding of \<open>post\<close>.
\<close>

theorem oversized_value_packed_alone:
  assumes "(2::u64) ^ 30 \<le> v" and "v < 2 ^ 60"
  shows "\<exists>t ws. enc_reaches (enc_init (pre @ v # post) (length (pre @ v # post))) t
      \<and> enc_input t = v # post \<and> ValuesRemaining t = Suc (length post)
      \<and> (if 240 \<le> ValuesRemaining t then enc_fast_body t else enc_careful_body t)
          = Inr (t\<lparr>NumberOfValuesCoded := 1, enc_out := enc_out t @ [push_bit 60 15 OR v],
                    enc_input := post, ValuesRemaining := length post\<rparr>)
      \<and> Simple8bEncode post (length post) = Inr (length ws, ws)
      \<and> Simple8bEncode (pre @ v # post) (length (pre @ v # post))
          = Inr (length (enc_out t) + 1 + length ws, enc_out t @ [push_bit 60 15 OR v] @ ws)
      \<and> GetSelectorNum [push_bit 60 15 OR v] = Inr 15
      \<and> Simple8bDecode [push_bit 60 15 OR v] 1 = Inr (1, [v])"
proof -
  define s0 where "s0 = enc_init (pre @ v # post) (length (pre @ v # post))"
  have f0: "enc_input s0 = pre @ v # post" "ValuesRemaining s0 = length (enc_input s0)"
    by (simp_all add: s0_def enc_init_def)
  from cursor_arrives [OF f0 assms(1)] obtain t where t: "enc_reaches s0 t"
    "enc_input t = v # post" "ValuesRemaining t = Suc (length post)" by blast
  define t1 where "t1 = t\<lparr>NumberOfValuesCoded := 1, enc_out := enc_out t @ [push_bit 60 15 OR v],
                    enc_input := post, ValuesRemaining := length post\<rparr>"
  have ff: "first_fit t = 15" using t(2) _ assms(1) by (rule first_fit_big_value) (simp add: t(3))
  have em: "emit 15 t = t1" unfolding t1_def using t(2,3) by (rule emit_big_value)
  have le: "ValuesRemaining t \<le> length (enc_input t)" by (simp add: t)
  have body: "(if 240 \<le> ValuesRemaining t then enc_fast_body t else enc_careful_body t) = Inr t1"
    using le by (simp add: enc_fast_body_eq enc_careful_body_eq ff em)
  have "enc_run t = enc_run (emit (first_fit t) t)"
    using enc_run_unfold [OF le] by (simp add: t(3))
  with enc_reaches_run [OF t(1)] have run: "enc_run s0 = enc_run t1" by (simp add: ff em)
  have f1: "enc_input t1 = post" "ValuesRemaining t1 = length post"
    "enc_out t1 = enc_out t @ [push_bit 60 15 OR v]"
    by (simp_all add: t1_def)
  obtain s' ws where fin: "enc_run t1 = Inr s'" "enc_out s' = enc_out t1 @ ws"
    "Simple8bEncode (enc_input t1) (length (enc_input t1)) = Inr (length ws, ws)"
    using Simple8bEncode_from_state [of t1] by (auto simp: f1)
  have "Simple8bEncode (pre @ v # post) (length (pre @ v # post))
          = Inr (length (enc_out t) + 1 + length ws, enc_out t @ [push_bit 60 15 OR v] @ ws)"
    unfolding Simple8bEncode_def [of "pre @ v # post"] s0_def [symmetric]
    using run fin by (simp add: f1)
  moreover have "Simple8bEncode post (length post) = Inr (length ws, ws)"
    using fin(3) by (simp add: f1)
  ultimately show ?thesis
    using t body selector_15_word [OF assms(2)] unfolding s0_def t1_def by blast
qed

theorem oversized_value_packed_alone_witness:
  "(2::u64) ^ 30 \<le> 2 ^ 30 \<and> (2::u64) ^ 30 < 2 ^ 60
   \<and> (\<exists>t ws. enc_reaches (enc_init ([1, 2] @ 2 ^ 30 # [3]) (length ([1, 2] @ 2 ^ 30 # [3::u64]))) t
      \<and> enc_input t = 2 ^ 30 # [3] \<and> ValuesRemaining t = Suc (length [3::u64])
      \<and> (if 240 \<le> ValuesRemaining t then enc_fast_body t else enc_careful_body t)
          = Inr (t\<lparr>NumberOfValuesCoded := 1, enc_out := enc_out t @ [push_bit 60 15 OR 2 ^ 30],
                    enc_input := [3], ValuesRemaining := length [3::u64]\<rparr>)
      \<and> Simple8bEncode [3] (length [3::u64]) = Inr (length ws, ws)
      \<and> Simple8bEncode ([1, 2] @ 2 ^ 30 # [3]) (length ([1, 2] @ 2 ^ 30 # [3::u64]))
          = Inr (length (enc_out t) + 1 + length ws, enc_out t @ [push_bit 60 15 OR 2 ^ 30] @ ws)
      \<and> GetSelectorNum [push_bit 60 15 OR 2 ^ 30] = Inr 15
      \<and> Simple8bDecode [push_bit 60 15 OR 2 ^ 30] 1 = Inr (1, [2 ^ 30]))"
proof -
  have a: "(2::u64) ^ 30 \<le> 2 ^ 30" and b: "(2::u64) ^ 30 < 2 ^ 60" by simp_all
  from a b oversized_value_packed_alone [OF a b, of "[1, 2]" "[3]"] show ?thesis
    by (intro conjI)
qed

end
